theory Spec2Isabelle
  imports Complex_Main
begin

section \<open>Bubble shooter: the data model of \<open>src/index.js\<close>\<close>

text \<open>
  The component \<open>BubbleShooter\<close> keeps its game state in React refs: \<open>gridRef\<close>,
  \<open>shooterRef\<close>, \<open>aimRef\<close>, \<open>animRef\<close>, and the \<open>score\<close> state. They become one record
  that every operation takes and returns. JavaScript numbers are modelled as \<open>real\<close>
  (exact arithmetic) where the source computes with positions, times and angles, and as
  \<open>int\<close>/\<open>nat\<close> for row and column indices. A cell is \<open>null\<close> or \<open>{ color }\<close>: an option.
\<close>

type_synonym color = string
type_synonym cell = "color option"
type_synonym grid = "cell list list"

definition rows :: nat where "rows = 10"
definition cols :: nat where "cols = 8"
definition cellSize :: real where "cellSize = 18"

definition colors :: "color list" where
  "colors = [''#ef4444'', ''#f97316'', ''#f59e0b'', ''#10b981'', ''#3b82f6'', ''#8b5cf6'']"

record projectile =
  p_x :: real
  p_y :: real
  p_vx :: real
  p_vy :: real
  p_radius :: real
  p_color :: color
  p_alive :: bool

record hud_anim =
  h_start :: real
  h_duration :: real
  h_type :: string

record shooter =
  s_x :: real
  s_y :: real
  s_radius :: real
  s_main :: color
  s_secondary :: color
  s_projectile :: "projectile option"
  s_moving :: bool
  s_hudAnim :: "hud_anim option"
  s_animLock :: bool

record aim =
  a_angle :: real
  a_active :: bool

record anim =
  an_active :: bool
  an_start :: real
  an_duration :: real
  an_dir :: int

text \<open>
  \<open>setTimeout\<close> is modelled by a queue of pending callbacks with their due times; the two
  callbacks of the source are the deferred grid mutation of \<open>startGridShift\<close> (it closes
  over \<open>direction\<close>) and the unlock that follows it 16 ms later.
\<close>

datatype callback = ShiftCommit int | ShiftUnlock

record game =
  gridRef :: grid
  shooterRef :: shooter
  aimRef :: aim
  animRef :: anim
  score :: int
  timers :: "(real \<times> callback) list"

text \<open>The grid of the component always has \<open>rows\<close> rows of \<open>cols\<close> cells.\<close>

definition wf_grid :: "grid \<Rightarrow> bool" where
  "wf_grid g = (length g = rows \<and> list_all (\<lambda>row. length row = cols) g)"

subsection \<open>Random colours\<close>

text \<open>
  \<open>randomColor(arr)\<close> is \<open>arr[Math.floor(Math.random() * arr.length)]\<close>; the value drawn
  from \<open>Math.random()\<close> (in \<open>[0, 1)\<close>) is a parameter.
\<close>

definition randomColor :: "color list \<Rightarrow> real \<Rightarrow> color" where
  "randomColor arr rnd = arr ! nat \<lfloor>rnd * real (length arr)\<rfloor>"

subsection \<open>Firing\<close>

text \<open>
  \<open>Math.atan2(y, x)\<close> over the reals: the angle in \<open>(-pi, pi]\<close> of the point \<open>(x, y)\<close>.
\<close>

definition atan2 :: "real \<Rightarrow> real \<Rightarrow> real" where
  "atan2 y x =
     (if 0 < x then arctan (y / x)
      else if x < 0 \<and> 0 \<le> y then arctan (y / x) + pi
      else if x < 0 \<and> y < 0 then arctan (y / x) - pi
      else if 0 < y then pi / 2
      else if y < 0 then - (pi / 2)
      else 0)"

text \<open>
  \<open>fire(angle)\<close>. \<open>now\<close> is the value of \<open>performance.now()\<close> and \<open>rnd\<close> the value of
  \<open>Math.random()\<close> read during the call.
\<close>

definition fire :: "game \<Rightarrow> real \<Rightarrow> real \<Rightarrow> real \<Rightarrow> game" where
  "fire st angle now rnd =
     (let s = shooterRef st in
      if s_moving s \<or> s_animLock s then st
      else
        let minVy = - 0.02;
            vy = sin angle;
            vx = cos angle;
            angle' = (if vy > minVy then atan2 minVy vx else angle);
            speed = 8;
            p = \<lparr>p_x = s_x s, p_y = s_y s,
                 p_vx = cos angle' * speed, p_vy = sin angle' * speed,
                 p_radius = s_radius s, p_color = s_main s, p_alive = True\<rparr>;
            s' = s\<lparr>s_projectile := Some p,
                    s_moving := True,
                    s_main := s_secondary s,
                    s_secondary := randomColor colors rnd,
                    s_hudAnim := Some \<lparr>h_start = now, h_duration = 180, h_type = ''fire''\<rparr>\<rparr>
        in st\<lparr>shooterRef := s', aimRef := (aimRef st)\<lparr>a_active := False\<rparr>\<rparr>)"

text \<open>A concrete session state used to instantiate the theorems below.\<close>

definition shooter0 :: shooter where
  "shooter0 = \<lparr>s_x = 77, s_y = 230, s_radius = 8,
                s_main = ''#ef4444'', s_secondary = ''#3b82f6'',
                s_projectile = None, s_moving = False, s_hudAnim = None,
                s_animLock = False\<rparr>"

definition grid0 :: grid where
  "grid0 = replicate 10 (replicate 8 None)"

definition game0 :: game where
  "game0 = \<lparr>gridRef = grid0, shooterRef = shooter0,
             aimRef = \<lparr>a_angle = 0, a_active = False\<rparr>,
             animRef = \<lparr>an_active = False, an_start = 0, an_duration = 300, an_dir = 0\<rparr>,
             score = 0, timers = []\<rparr>"

subsection \<open>Grid geometry\<close>

text \<open>
  \<open>gridToPos(row, col)\<close>: the top-left corner of the cell's bounding box; every caller
  adds \<open>cellSize / 2\<close> to both coordinates to get the centre of the bubble.
\<close>

definition gridToPos :: "nat \<Rightarrow> nat \<Rightarrow> real \<times> real" where
  "gridToPos row col =
     (real col * cellSize + real (row mod 2) * (cellSize / 2), real row * (cellSize - 3))"

text \<open>
  \<open>posToGrid(x, y)\<close>: a scan of all cells in row-major order that keeps the first cell
  of least squared distance. \<open>best\<close> is \<open>(row, col, d)\<close>, with \<open>None\<close> for the initial
  \<open>d = Infinity\<close>.
\<close>

definition posToGrid_step ::
  "real \<Rightarrow> real \<Rightarrow> nat \<Rightarrow> nat \<Rightarrow> nat \<times> nat \<times> real option \<Rightarrow> nat \<times> nat \<times> real option" where
  "posToGrid_step x y row col best =
     (let p = gridToPos row col;
          cx = fst p + cellSize / 2;
          cy = snd p + cellSize / 2;
          d = (cx - x)\<^sup>2 + (cy - y)\<^sup>2
      in if (case snd (snd best) of None \<Rightarrow> True | Some bd \<Rightarrow> d < bd)
         then (row, col, Some d) else best)"

definition posToGrid :: "real \<Rightarrow> real \<Rightarrow> nat \<times> nat" where
  "posToGrid x y =
     (let best = fold (\<lambda>row. fold (posToGrid_step x y row) [0..<cols]) [0..<rows] (0, 0, None)
      in (fst best, fst (snd best)))"

subsection \<open>Hex adjacency and the two searches\<close>

text \<open>
  The six neighbour offsets of both searches, in the order the source pushes them. Row and
  column numbers are \<open>int\<close> here: the searches compute \<open>r + dr\<close> before any bounds check.
\<close>

definition offsets :: "int \<Rightarrow> (int \<times> int) list" where
  "offsets r =
     [(-1, 0), (1, 0), (0, -1), (0, 1),
      (-1, if r mod 2 = 0 then -1 else 1),
      (1, if r mod 2 = 0 then -1 else 1)]"

definition neighbours :: "int \<times> int \<Rightarrow> (int \<times> int) list" where
  "neighbours cell = map (\<lambda>(dr, dc). (fst cell + dr, snd cell + dc)) (offsets (fst cell))"

definition inRange :: "int \<times> int \<Rightarrow> bool" where
  "inRange cell = (0 \<le> fst cell \<and> fst cell < int rows \<and> 0 \<le> snd cell \<and> snd cell < int cols)"

text \<open>\<open>gridRef.current[r][c]\<close> and \<open>gridRef.current[r][c] = v\<close>.\<close>

definition cellAt :: "grid \<Rightarrow> int \<times> int \<Rightarrow> cell" where
  "cellAt g cell = g ! nat (fst cell) ! nat (snd cell)"

definition setCell :: "grid \<Rightarrow> int \<times> int \<Rightarrow> cell \<Rightarrow> grid" where
  "setCell g cell v = g[nat (fst cell) := (g ! nat (fst cell))[nat (snd cell) := v]]"

text \<open>
  \<open>floodFill(sr, sc, color)\<close>. The \<open>visited\<close> set is a list in insertion order (the order
  \<open>Array.from\<close> returns); its string keys \<open>r + ":" + c\<close> are in bijection with the pairs
  \<open>(r, c)\<close>, which stand for them. The stack is a list whose head is the top:
  \<open>stack.pop()\<close> takes the head and the six pushes leave the last offset on top.
\<close>

function floodFill_loop ::
  "grid \<Rightarrow> color \<Rightarrow> (int \<times> int) list \<Rightarrow> (int \<times> int) list \<Rightarrow> (int \<times> int) list" where
  "floodFill_loop g color visited [] = visited"
| "floodFill_loop g color visited (cell # stack) =
     (if cell \<in> set visited then floodFill_loop g color visited stack
      else if \<not> inRange cell then floodFill_loop g color visited stack
      else if cellAt g cell \<noteq> Some color then floodFill_loop g color visited stack
      else floodFill_loop g color (visited @ [cell]) (rev (neighbours cell) @ stack))"
  by pat_completeness auto
termination
proof (relation "measures [\<lambda>(g, color, visited, stack). card ({cell. inRange cell} - set visited),
                           \<lambda>(g, color, visited, stack). length stack]")
  fix g :: grid and color :: color and visited stack :: "(int \<times> int) list" and cell :: "int \<times> int"
  assume new: "cell \<notin> set visited" and rng: "\<not> \<not> inRange cell"
  have "{cell. inRange cell} \<subseteq> {0..<int rows} \<times> {0..<int cols}"
    by (auto simp: inRange_def)
  then have fin: "finite ({cell. inRange cell} - set visited)"
    using finite_subset by blast
  have "{cell. inRange cell} - set (visited @ [cell]) \<subset> {cell. inRange cell} - set visited"
    using new rng by auto
  then have "card ({cell. inRange cell} - set (visited @ [cell])) < card ({cell. inRange cell} - set visited)"
    using fin by (rule psubset_card_mono [rotated])
  then show "((g, color, visited @ [cell], rev (neighbours cell) @ stack), (g, color, visited, cell # stack))
      \<in> measures [\<lambda>(g, color, visited, stack). card ({cell. inRange cell} - set visited),
                   \<lambda>(g, color, visited, stack). length stack]"
    by simp
qed auto

definition floodFill :: "grid \<Rightarrow> int \<Rightarrow> int \<Rightarrow> color \<Rightarrow> (int \<times> int) list" where
  "floodFill g sr sc color = floodFill_loop g color [] [(sr, sc)]"

text \<open>
  \<open>removeFloating()\<close>, first part: the search from the occupied cells of row 0. A popped
  cell that is not yet in \<open>reachable\<close> is added; of its six neighbours those in range and
  occupied are pushed.
\<close>

definition occupied :: "grid \<Rightarrow> int \<times> int \<Rightarrow> bool" where
  "occupied g cell = (inRange cell \<and> cellAt g cell \<noteq> None)"

function reachable_loop ::
  "grid \<Rightarrow> (int \<times> int) list \<Rightarrow> (int \<times> int) list \<Rightarrow> (int \<times> int) list" where
  "reachable_loop g reachable [] = reachable"
| "reachable_loop g reachable (cell # stack) =
     (if cell \<in> set reachable then reachable_loop g reachable stack
      else reachable_loop g (reachable @ [cell])
             (rev (filter (occupied g) (neighbours cell)) @ stack))"
  by pat_completeness auto
termination
proof (relation "measures [\<lambda>(g, reachable, stack). card ({cell. inRange cell} - set reachable),
                           \<lambda>(g, reachable, stack). length (filter (\<lambda>cell. \<not> inRange cell) stack),
                           \<lambda>(g, reachable, stack). length stack]")
  fix g :: grid and reachable stack :: "(int \<times> int) list" and cell :: "int \<times> int"
  assume new: "cell \<notin> set reachable"
  have "{cell. inRange cell} \<subseteq> {0..<int rows} \<times> {0..<int cols}"
    by (auto simp: inRange_def)
  then have fin: "finite ({cell. inRange cell} - set reachable)"
    using finite_subset by blast
  have pushed: "filter (\<lambda>cell. \<not> inRange cell) (filter (occupied g) (neighbours cell)) = []"
    by (auto simp: filter_empty_conv occupied_def)
  show "((g, reachable @ [cell], rev (filter (occupied g) (neighbours cell)) @ stack),
         (g, reachable, cell # stack))
      \<in> measures [\<lambda>(g, reachable, stack). card ({cell. inRange cell} - set reachable),
                   \<lambda>(g, reachable, stack). length (filter (\<lambda>cell. \<not> inRange cell) stack),
                   \<lambda>(g, reachable, stack). length stack]"
  proof (cases "inRange cell")
    case True
    then have "{cell. inRange cell} - set (reachable @ [cell]) \<subset> {cell. inRange cell} - set reachable"
      using new by auto
    then have "card ({cell. inRange cell} - set (reachable @ [cell]))
             < card ({cell. inRange cell} - set reachable)"
      using fin by (rule psubset_card_mono [rotated])
    then show ?thesis by simp
  next
    case False
    then have "{cell. inRange cell} - set (reachable @ [cell]) = {cell. inRange cell} - set reachable"
      by auto
    then show ?thesis using False pushed by (simp add: rev_filter [symmetric])
  qed
qed auto

text \<open>The initial stack: the occupied cells of row 0, the last column on top.\<close>

definition ceilingCells :: "grid \<Rightarrow> (int \<times> int) list" where
  "ceilingCells g =
     rev (map (\<lambda>col. (0, int col)) (filter (\<lambda>col. g ! 0 ! col \<noteq> None) [0..<cols]))"

definition reachableSet :: "grid \<Rightarrow> (int \<times> int) list" where
  "reachableSet g = reachable_loop g [] (ceilingCells g)"

text \<open>
  Second part: the scan that clears every occupied cell outside \<open>reachable\<close> and adds 5
  to the score for each (\<open>setScore((s) => s + 5)\<close>).
\<close>

definition clearFloating_step ::
  "(int \<times> int) list \<Rightarrow> int \<times> int \<Rightarrow> grid \<times> int \<Rightarrow> grid \<times> int" where
  "clearFloating_step reachable cell gs =
     (if cellAt (fst gs) cell \<noteq> None \<and> cell \<notin> set reachable
      then (setCell (fst gs) cell None, snd gs + 5)
      else gs)"

definition clearFloating :: "(int \<times> int) list \<Rightarrow> grid \<times> int \<Rightarrow> grid \<times> int" where
  "clearFloating reachable gs =
     fold (\<lambda>r. fold (\<lambda>c. clearFloating_step reachable (int r, int c)) [0..<cols]) [0..<rows] gs"

definition removeFloating :: "game \<Rightarrow> game" where
  "removeFloating st =
     (let reachable = reachableSet (gridRef st);
          gs = clearFloating reachable (gridRef st, score st)
      in st\<lparr>gridRef := fst gs, score := snd gs\<rparr>)"

subsection \<open>Landing\<close>

text \<open>
  \<open>stopProjectileAndSnap()\<close>. \<open>posToGrid\<close> returns a row in \<open>0..rows-1\<close>, so the
  \<open>row < 0\<close> branch of the source is kept as written although it is never taken.
\<close>

definition clearProjectile :: "game \<Rightarrow> game" where
  "clearProjectile st = st\<lparr>shooterRef := (shooterRef st)\<lparr>s_projectile := None, s_moving := False\<rparr>\<rparr>"

definition stopProjectileAndSnap :: "game \<Rightarrow> game" where
  "stopProjectileAndSnap st =
     (case s_projectile (shooterRef st) of
        None \<Rightarrow> st
      | Some p \<Rightarrow>
          let rc = posToGrid (p_x p) (p_y p);
              cell = (int (fst rc), int (snd rc))
          in if fst cell < 0 then clearProjectile st
             else if cellAt (gridRef st) cell = None then
               let st1 = st\<lparr>gridRef := setCell (gridRef st) cell (Some (p_color p))\<rparr>;
                   matched = floodFill (gridRef st1) (fst cell) (snd cell) (p_color p);
                   st2 = (if length matched \<ge> 3
                          then removeFloating
                                 (st1\<lparr>gridRef := fold (\<lambda>m g. setCell g m None) matched (gridRef st1),
                                      score := score st1 + int (length matched) * 10\<rparr>)
                          else st1)
               in clearProjectile st2
             else clearProjectile st)"

subsection \<open>Paths of hex-adjacent cells\<close>

text \<open>
  \<open>linked S a b\<close>: there is a path from \<open>a\<close> to \<open>b\<close> that stays inside the set \<open>S\<close> and
  moves from a cell to one of its six neighbours at each step.
\<close>

inductive linked :: "(int \<times> int) set \<Rightarrow> int \<times> int \<Rightarrow> int \<times> int \<Rightarrow> bool"
  for S :: "(int \<times> int) set" and a :: "int \<times> int" where
  linked_refl: "a \<in> S \<Longrightarrow> linked S a a"
| linked_step: "linked S a b \<Longrightarrow> b' \<in> set (neighbours b) \<Longrightarrow> b' \<in> S \<Longrightarrow> linked S a b'"

text \<open>The cells in range that hold the given colour, and the occupied cells.\<close>

definition sameColor :: "grid \<Rightarrow> color \<Rightarrow> (int \<times> int) set" where
  "sameColor g color = {cell. inRange cell \<and> cellAt g cell = Some color}"

definition occupiedCells :: "grid \<Rightarrow> (int \<times> int) set" where
  "occupiedCells g = {cell. occupied g cell}"

text \<open>A grid with a cluster of three at the top-left and one isolated cell in row 5.\<close>

definition grid1 :: grid where
  "grid1 = [[Some ''#ef4444'', Some ''#ef4444'', None, None, None, None, None, None],
            [Some ''#ef4444'', Some ''#3b82f6'', None, None, None, None, None, None],
            replicate 8 None,
            replicate 8 None,
            replicate 8 None,
            [None, None, None, Some ''#10b981'', None, None, None, None],
            replicate 8 None,
            replicate 8 None,
            replicate 8 None,
            replicate 8 None]"

text \<open>All cells of the grid in the row-major order of the source's nested loops.\<close>

definition allCells :: "(int \<times> int) list" where
  "allCells = map (\<lambda>(r, c). (int r, int c)) (List.product [0..<rows] [0..<cols])"

text \<open>
  \<open>anchored g b\<close>: the cell \<open>b\<close> has a path of hex-adjacent occupied cells from an occupied
  cell of row 0.
\<close>

definition anchored :: "grid \<Rightarrow> int \<times> int \<Rightarrow> bool" where
  "anchored g b = (\<exists>c. linked (occupiedCells g) (0, c) b)"

definition floating :: "grid \<Rightarrow> (int \<times> int) set" where
  "floating g = {b. occupied g b \<and> \<not> anchored g b}"

text \<open>
  The cell \<open>stopProjectileAndSnap\<close> snaps a projectile to, and two states with a red
  projectile in flight over \<open>grid1\<close>: one at the centre of the empty cell \<open>(2, 0)\<close>, one
  at the centre of the occupied cell \<open>(0, 0)\<close>.
\<close>

definition snapCell :: "projectile \<Rightarrow> int \<times> int" where
  "snapCell p = (int (fst (posToGrid (p_x p) (p_y p))), int (snd (posToGrid (p_x p) (p_y p))))"

definition shot :: "real \<Rightarrow> real \<Rightarrow> projectile" where
  "shot x y = \<lparr>p_x = x, p_y = y, p_vx = 0, p_vy = - 8, p_radius = 8,
               p_color = ''#ef4444'', p_alive = True\<rparr>"

definition inFlight :: "real \<Rightarrow> real \<Rightarrow> game" where
  "inFlight x y = game0\<lparr>gridRef := grid1,
                        shooterRef := shooter0\<lparr>s_projectile := Some (shot x y), s_moving := True\<rparr>\<rparr>"

subsection \<open>The row shift\<close>

text \<open>
  The deferred data shift of \<open>startGridShift\<close>, the body of its first \<open>setTimeout\<close>
  callback: the two loops over the rows and the fresh empty row
  \<open>Array.from({ length: cols }, () => null)\<close>.
\<close>

definition emptyRow :: "cell list" where
  "emptyRow = replicate cols None"

definition shiftGrid :: "int \<Rightarrow> grid \<Rightarrow> grid" where
  "shiftGrid direction g =
     (if direction = - 1
      then (fold (\<lambda>r g. g[r := g ! (r + 1)]) [0..<rows - 1] g)[rows - 1 := emptyRow]
      else (fold (\<lambda>r g. g[r := g ! (r - 1)]) (rev [1..<rows]) g)[0 := emptyRow])"

text \<open>
  \<open>startGridShift(direction, duration)\<close> at time \<open>now\<close> (the value of
  \<open>performance.now()\<close>): the callback is queued with its due time; \<open>setTimeout\<close> treats a
  negative delay as 0.
\<close>

definition startGridShift :: "game \<Rightarrow> real \<Rightarrow> int \<Rightarrow> real \<Rightarrow> game" where
  "startGridShift st now direction duration =
     (if an_active (animRef st) then st
      else st\<lparr>animRef := \<lparr>an_active = True, an_start = now, an_duration = duration,
                           an_dir = direction\<rparr>,
              shooterRef := (shooterRef st)\<lparr>s_animLock := True\<rparr>,
              timers := timers st @ [(now + max 0 duration, ShiftCommit direction)]\<rparr>)"

text \<open>
  Running a callback at time \<open>t\<close>: the commit shifts the grid and queues the unlock 16 ms
  later; the unlock clears \<open>active\<close> and \<open>animLock\<close>.
\<close>

definition runCallback :: "real \<Rightarrow> callback \<Rightarrow> game \<Rightarrow> game" where
  "runCallback t cb st =
     (case cb of
        ShiftCommit direction \<Rightarrow>
          st\<lparr>gridRef := shiftGrid direction (gridRef st),
             timers := timers st @ [(t + 16, ShiftUnlock)]\<rparr>
      | ShiftUnlock \<Rightarrow>
          st\<lparr>animRef := (animRef st)\<lparr>an_active := False\<rparr>,
             shooterRef := (shooterRef st)\<lparr>s_animLock := False\<rparr>\<rparr>)"

text \<open>
  The timer queue of the runtime: \<open>advance now st\<close> runs, earliest first, every queued
  callback that is due at \<open>now\<close> or before, those queued by the callbacks it runs
  included.
\<close>

fun earliest :: "(real \<times> callback) list \<Rightarrow> (real \<times> callback) option" where
  "earliest [] = None"
| "earliest (x # xs) =
     (case earliest xs of
        None \<Rightarrow> Some x
      | Some y \<Rightarrow> if fst x \<le> fst y then Some x else Some y)"

definition nextDue :: "real \<Rightarrow> (real \<times> callback) list \<Rightarrow> (real \<times> callback) option" where
  "nextDue now ts = earliest (filter (\<lambda>x. fst x \<le> now) ts)"

fun weight :: "real \<times> callback \<Rightarrow> nat" where
  "weight (t, ShiftCommit d) = 2"
| "weight (t, ShiftUnlock) = 1"

function advance :: "real \<Rightarrow> game \<Rightarrow> game" where
  "advance now st =
     (case nextDue now (timers st) of
        None \<Rightarrow> st
      | Some x \<Rightarrow> advance now (runCallback (fst x) (snd x) (st\<lparr>timers := remove1 x (timers st)\<rparr>)))"
  by pat_completeness auto
termination
proof (relation "measure (\<lambda>(now, st). sum_list (map weight (timers st)))")
  show "wf (measure (\<lambda>(now, st). sum_list (map weight (timers st))))" by simp
next
  fix now :: real and st :: game and x :: "real \<times> callback"
  assume due: "nextDue now (timers st) = Some x"
  have mem: "y \<in> set ts" if "earliest ts = Some y" for y ts
    using that by (induction ts arbitrary: y) (auto split: option.splits if_splits)
  have x: "x \<in> set (timers st)"
    using mem [OF due [unfolded nextDue_def]] by simp
  have rem: "sum_list (map weight (remove1 y ts)) + weight y = sum_list (map weight ts)"
    if "y \<in> set ts" for y ts
    using that by (induction ts) auto
  have pos: "weight x > 0" by (cases x; cases "snd x") auto
  have "sum_list (map weight (timers (runCallback (fst x) (snd x) (st\<lparr>timers := remove1 x (timers st)\<rparr>))))
        < sum_list (map weight (remove1 x (timers st))) + weight x"
    by (cases x; cases "snd x") (auto simp: runCallback_def)
  then show "((now, runCallback (fst x) (snd x) (st\<lparr>timers := remove1 x (timers st)\<rparr>)), (now, st))
        \<in> measure (\<lambda>(now, st). sum_list (map weight (timers st)))"
    using rem [OF x] by simp
qed

text \<open>
  The vertical offset the frame loop adds to every cell while a shift is active,
  \<open>-a.dir * eased * rowH\<close> with \<open>rowH = cellSize - 3\<close>; the canvas \<open>y\<close> axis points down,
  toward the shooter.
\<close>

definition drawOffset :: "int \<Rightarrow> real \<Rightarrow> real" where
  "drawOffset dir eased = - real_of_int dir * eased * (cellSize - 3)"

subsection \<open>The trajectory predictor\<close>

text \<open>\<open>Math.hypot\<close>, and \<open>segmentIntersectsCircle(sx, sy, ex, ey, cx, cy, r)\<close>.\<close>

definition hypot :: "real \<Rightarrow> real \<Rightarrow> real" where
  "hypot a b = sqrt (a\<^sup>2 + b\<^sup>2)"

definition segmentIntersectsCircle ::
  "real \<Rightarrow> real \<Rightarrow> real \<Rightarrow> real \<Rightarrow> real \<Rightarrow> real \<Rightarrow> real \<Rightarrow> bool" where
  "segmentIntersectsCircle sx sy ex ey cx cy r =
     (let dx = ex - sx;
          dy = ey - sy;
          l2 = dx * dx + dy * dy
      in if l2 = 0 then hypot (cx - sx) (cy - sy) \<le> r
         else
           let t = ((cx - sx) * dx + (cy - sy) * dy) / l2;
               t = max 0 (min 1 t);
               px = sx + t * dx;
               py = sy + t * dy;
               dist = hypot (px - cx) (py - cy)
           in dist \<le> r)"

text \<open>
  The parameter \<open>t\<close> in \<open>[0, 1]\<close> that the predictor computes for a cell it has found
  hit: the position along the segment of the point closest to the centre \<open>(cx, cy)\<close>
  (\<open>l2 = dx * dx + dy * dy || 1\<close>).
\<close>

definition hitParam :: "real \<Rightarrow> real \<Rightarrow> real \<Rightarrow> real \<Rightarrow> real \<Rightarrow> real \<Rightarrow> real" where
  "hitParam x y endX endY cx cy =
     (let dx = endX - x;
          dy = endY - y;
          l2 = (if dx * dx + dy * dy = 0 then 1 else dx * dx + dy * dy);
          t = ((cx - x) * dx + (cy - y) * dy) / l2
      in max 0 (min 1 t))"

record segment =
  seg_x1 :: real
  seg_y1 :: real
  seg_x2 :: real
  seg_y2 :: real

record collision =
  c_row :: nat
  c_col :: nat
  c_x :: real
  c_y :: real

record trajectory =
  t_segments :: "segment list"
  t_hit :: bool
  t_point :: "(real \<times> real) option"
  t_cell :: "(nat \<times> nat) option"

text \<open>
  The test of one cell in the scan of \<open>computeTrajectory\<close>, and the scan: two nested
  loops in row-major order that stop at the first cell found hit (\<open>break\<close>).
\<close>

definition cellCollision ::
  "grid \<Rightarrow> real \<Rightarrow> real \<Rightarrow> real \<Rightarrow> real \<Rightarrow> real \<Rightarrow> nat \<Rightarrow> nat \<Rightarrow> collision option" where
  "cellCollision g projR x y endX endY r c =
     (case g ! r ! c of
        None \<Rightarrow> None
      | Some cell \<Rightarrow>
          let pos = gridToPos r c;
              cx = fst pos + cellSize / 2;
              cy = snd pos + cellSize / 2;
              cellR = cellSize / 2 - 1
          in if segmentIntersectsCircle x y endX endY cx cy (cellR + projR - 0.5)
             then
               let dx = endX - x;
                   dy = endY - y;
                   t = hitParam x y endX endY cx cy;
                   px = x + dx * t;
                   py = y + dy * t
               in Some \<lparr>c_row = r, c_col = c, c_x = px, c_y = py\<rparr>
             else None)"

fun firstHit :: "('a \<Rightarrow> 'b option) \<Rightarrow> 'a list \<Rightarrow> 'b option" where
  "firstHit f [] = None"
| "firstHit f (x # xs) = (case f x of None \<Rightarrow> firstHit f xs | Some hit \<Rightarrow> Some hit)"

definition findCollision ::
  "grid \<Rightarrow> real \<Rightarrow> real \<Rightarrow> real \<Rightarrow> real \<Rightarrow> real \<Rightarrow> collision option" where
  "findCollision g projR x y endX endY =
     firstHit (\<lambda>r. firstHit (cellCollision g projR x y endX endY r) [0..<cols]) [0..<rows]"

text \<open>
  Event times that may be \<open>Infinity\<close> (\<open>None\<close>), with \<open>Math.min\<close> and \<open><=\<close> on them.
\<close>

definition tmin :: "real option \<Rightarrow> real option \<Rightarrow> real option" where
  "tmin a b = (case a of None \<Rightarrow> b | Some u \<Rightarrow> (case b of None \<Rightarrow> Some u | Some v \<Rightarrow> Some (min u v)))"

definition tle :: "real option \<Rightarrow> real option \<Rightarrow> bool" where
  "tle a b = (case b of None \<Rightarrow> True | Some v \<Rightarrow> (case a of None \<Rightarrow> False | Some u \<Rightarrow> u \<le> v))"

text \<open>
  The times \<open>tx\<close> and \<open>ty\<close> at which the ray reaches a side wall and the ceiling line
  (\<open>speed = 1\<close>).
\<close>

definition wallTime :: "real \<Rightarrow> real \<Rightarrow> real \<Rightarrow> real \<Rightarrow> real option" where
  "wallTime width radius x vx =
     (if vx > 0 then Some ((width - (x + radius)) / (vx * 1))
      else if vx < 0 then Some ((radius - x) / (vx * 1))
      else None)"

definition ceilingTime :: "real \<Rightarrow> real \<Rightarrow> real \<Rightarrow> real option" where
  "ceilingTime radius y vy = (if vy < 0 then Some ((radius - y) / (vy * 1)) else None)"

text \<open>
  The loop of \<open>computeTrajectory\<close>; \<open>n\<close> counts the iterations left
  (\<open>bounce <= maxBounces\<close>), \<open>segs\<close> is the array \<open>segments\<close>. \<open>width\<close> is
  \<open>canvas.width / scale\<close> and \<open>radius\<close> is \<open>shooterRef.current.radius\<close>.
\<close>

fun trace ::
  "grid \<Rightarrow> real \<Rightarrow> real \<Rightarrow> nat \<Rightarrow> real \<Rightarrow> real \<Rightarrow> real \<Rightarrow> real \<Rightarrow> segment list \<Rightarrow> trajectory" where
  "trace g width radius 0 x y vx vy segs =
     \<lparr>t_segments = segs, t_hit = False, t_point = None, t_cell = None\<rparr>"
| "trace g width radius (Suc n) x y vx vy segs =
     (let tx = wallTime width radius x vx;
          ty = ceilingTime radius y vy
      in case tmin tx ty of
           None \<Rightarrow> \<lparr>t_segments = segs, t_hit = False, t_point = None, t_cell = None\<rparr>
         | Some tEvent \<Rightarrow>
             let endX = x + vx * 1 * tEvent;
                 endY = y + vy * 1 * tEvent
             in case findCollision g radius x y endX endY of
                  Some col \<Rightarrow>
                    \<lparr>t_segments = segs @ [\<lparr>seg_x1 = x, seg_y1 = y, seg_x2 = c_x col, seg_y2 = c_y col\<rparr>],
                     t_hit = True, t_point = Some (c_x col, c_y col),
                     t_cell = Some (c_row col, c_col col)\<rparr>
                | None \<Rightarrow>
                    let segs' = segs @ [\<lparr>seg_x1 = x, seg_y1 = y, seg_x2 = endX, seg_y2 = endY\<rparr>]
                    in if tle ty tx
                       then \<lparr>t_segments = segs', t_hit = False, t_point = None, t_cell = None\<rparr>
                       else trace g width radius n endX endY (- vx) vy segs')"

definition computeTrajectory ::
  "game \<Rightarrow> real \<Rightarrow> real \<Rightarrow> real \<Rightarrow> real \<Rightarrow> nat \<Rightarrow> trajectory" where
  "computeTrajectory st width startX startY angle maxBounces =
     trace (gridRef st) width (s_radius (shooterRef st)) (Suc maxBounces)
       startX startY (cos angle) (sin angle) []"

text \<open>
  A grid as \<open>generateInitialGrid\<close> makes it: the top four rows filled (here all with
  the first colour of the palette), the other rows empty.
\<close>

definition grid2 :: grid where
  "grid2 = replicate 4 (replicate 8 (Some ''#ef4444'')) @ replicate 6 (replicate 8 None)"

text \<open>
  \<open>withinWalls\<close>: both ends of a segment keep the projectile between the side walls.
  \<open>bounces width radius v p segs\<close>: the segments form a path from the point \<open>p\<close>; the
  horizontal displacement of each has the sign of the velocity \<open>v\<close> it was traced with;
  a segment that is followed by another one ends on the wall that \<open>v\<close> points to, and
  the next segment is traced with \<open>-v\<close>.
\<close>

definition withinWalls :: "real \<Rightarrow> real \<Rightarrow> segment \<Rightarrow> bool" where
  "withinWalls width radius s =
     (radius \<le> seg_x1 s \<and> seg_x1 s \<le> width - radius \<and> radius \<le> seg_x2 s \<and> seg_x2 s \<le> width - radius)"

fun bounces :: "real \<Rightarrow> real \<Rightarrow> real \<Rightarrow> real \<times> real \<Rightarrow> segment list \<Rightarrow> bool" where
  "bounces width radius v p [] = True"
| "bounces width radius v p (s # ss) =
     (seg_x1 s = fst p \<and> seg_y1 s = snd p
      \<and> 0 \<le> (seg_x2 s - seg_x1 s) * v
      \<and> (ss \<noteq> [] \<longrightarrow> v \<noteq> 0 \<and> seg_x2 s = (if v > 0 then width - radius else radius))
      \<and> bounces width radius (- v) (seg_x2 s, seg_y2 s) ss)"

section \<open>Firing: colours and the clamp of the aim\<close>

lemma randomColor_in_palette:
  assumes "0 \<le> rnd" "rnd < 1"
  shows "randomColor colors rnd \<in> set colors"
proof -
  have len: "length colors = 6" by (simp add: colors_def)
  have "rnd * 6 < 6" using assms by simp
  then have "\<lfloor>rnd * 6\<rfloor> < 6" by (simp add: floor_less_iff)
  then have "nat \<lfloor>rnd * 6\<rfloor> < 6" by linarith
  then have "nat \<lfloor>rnd * real (length colors)\<rfloor> < length colors" using len by simp
  then show ?thesis unfolding randomColor_def by (rule nth_mem)
qed

text \<open>
  C10. A successful fire (shooter not moving and not locked by a grid shift) creates a
  projectile with the shooter's previous main colour, promotes the previous secondary
  colour to main, draws the new secondary colour from the palette, and sets \<open>moving\<close>.
\<close>

theorem fire_colours:
  assumes "\<not> s_moving (shooterRef st)" and "\<not> s_animLock (shooterRef st)"
    and "0 \<le> rnd" and "rnd < 1"
  shows "(\<exists>p. s_projectile (shooterRef (fire st angle now rnd)) = Some p
              \<and> p_color p = s_main (shooterRef st))
       \<and> s_main (shooterRef (fire st angle now rnd)) = s_secondary (shooterRef st)
       \<and> s_secondary (shooterRef (fire st angle now rnd)) \<in> set colors
       \<and> s_moving (shooterRef (fire st angle now rnd))"
  using assms randomColor_in_palette [of rnd]
  by (simp add: fire_def Let_def)

theorem fire_colours_witness:
  "(\<exists>p. s_projectile (shooterRef (fire game0 0 0 (1/2))) = Some p
              \<and> p_color p = ''#ef4444'')
       \<and> s_main (shooterRef (fire game0 0 0 (1/2))) = ''#3b82f6''
       \<and> s_secondary (shooterRef (fire game0 0 0 (1/2))) \<in> set colors
       \<and> s_moving (shooterRef (fire game0 0 0 (1/2)))"
  using fire_colours [of game0 "1/2" 0 0]
  by (simp add: game0_def shooter0_def)

lemma sqrt_sum_div:
  fixes x y :: real
  assumes "x \<noteq> 0"
  shows "sqrt (1 + (y / x)\<^sup>2) = sqrt (x\<^sup>2 + y\<^sup>2) / \<bar>x\<bar>"
proof -
  have "1 + (y / x)\<^sup>2 = (x\<^sup>2 + y\<^sup>2) / x\<^sup>2"
    using assms by (simp add: power_divide field_simps)
  then show ?thesis by (simp add: real_sqrt_divide)
qed

lemma sin_arctan_div:
  fixes x y :: real
  assumes "x \<noteq> 0"
  shows "sin (arctan (y / x)) = (y / x) * \<bar>x\<bar> / sqrt (x\<^sup>2 + y\<^sup>2)"
  using assms by (simp add: sin_arctan sqrt_sum_div)

lemma cos_arctan_div:
  fixes x y :: real
  assumes "x \<noteq> 0"
  shows "cos (arctan (y / x)) = \<bar>x\<bar> / sqrt (x\<^sup>2 + y\<^sup>2)"
  using assms by (simp add: cos_arctan sqrt_sum_div)

lemma sin_atan2:
  assumes "x \<noteq> 0 \<or> y \<noteq> 0"
  shows "sin (atan2 y x) = y / sqrt (x\<^sup>2 + y\<^sup>2)"
proof -
  consider "0 < x" | "x < 0" | "x = 0" "0 < y" | "x = 0" "y < 0"
    using assms by linarith
  then show ?thesis
  proof cases
    case 1
    then show ?thesis by (simp add: atan2_def sin_arctan_div)
  next
    case 2
    then show ?thesis by (simp add: atan2_def sin_arctan_div)
  next
    case 3
    then show ?thesis by (simp add: atan2_def)
  next
    case 4
    then show ?thesis by (simp add: atan2_def)
  qed
qed

lemma cos_atan2:
  assumes "x \<noteq> 0 \<or> y \<noteq> 0"
  shows "cos (atan2 y x) = x / sqrt (x\<^sup>2 + y\<^sup>2)"
proof -
  consider "0 < x" | "x < 0" | "x = 0" "0 < y" | "x = 0" "y < 0"
    using assms by linarith
  then show ?thesis
  proof cases
    case 1
    then show ?thesis by (simp add: atan2_def cos_arctan_div)
  next
    case 2
    then show ?thesis by (simp add: atan2_def cos_arctan_div)
  next
    case 3
    then show ?thesis by (simp add: atan2_def)
  next
    case 4
    then show ?thesis by (simp add: atan2_def)
  qed
qed

lemma sin_atan2_neg:
  assumes "y < 0"
  shows "sin (atan2 y x) < 0"
proof -
  have "0 < sqrt (x\<^sup>2 + y\<^sup>2)" using assms
    by (simp add: sum_power2_gt_zero_iff)
  then show ?thesis using assms sin_atan2 [of x y]
    by (simp add: divide_neg_pos)
qed


lemma atan2_unit:
  shows "cos (atan2 (sin a) (cos a)) = cos a" and "sin (atan2 (sin a) (cos a)) = sin a"
proof -
  have nz: "cos a \<noteq> 0 \<or> sin a \<noteq> 0"
    using sin_zero_abs_cos_one [of a] by auto
  have one: "sqrt ((cos a)\<^sup>2 + (sin a)\<^sup>2) = 1"
    by (simp add: add.commute)
  show "cos (atan2 (sin a) (cos a)) = cos a"
    using cos_atan2 [OF nz] one by simp
  show "sin (atan2 (sin a) (cos a)) = sin a"
    using sin_atan2 [OF nz] one by simp
qed

text \<open>
  C9. Every accepted shot leaves with a strictly upward velocity (\<open>vy < 0\<close>; the canvas
  \<open>y\<close> axis points down). When the aim has \<open>sin angle \<ge> -0.02\<close> (near-horizontal or
  downward), the velocity is computed from the recomputed angle
  \<open>atan2(-0.02, cos angle)\<close>, that is from the clamped \<open>vy = -0.02\<close>; at
  \<open>sin angle = -0.02\<close> the source skips the branch, and the velocity is the same.
\<close>

theorem fire_clamps_aim:
  assumes "\<not> s_moving (shooterRef st)" and "\<not> s_animLock (shooterRef st)"
  shows "\<exists>p. s_projectile (shooterRef (fire st angle now rnd)) = Some p
           \<and> p_vy p < 0
           \<and> (- 0.02 \<le> sin angle \<longrightarrow>
                p_vx p = 8 * cos (atan2 (- 0.02) (cos angle))
              \<and> p_vy p = 8 * sin (atan2 (- 0.02) (cos angle)))"
proof -
  consider "- 0.02 < sin angle" | "sin angle = - 0.02" | "sin angle < - 0.02"
    by linarith
  then show ?thesis
  proof cases
    case 1
    have "sin (atan2 (- 0.02) (cos angle)) < 0"
      by (rule sin_atan2_neg) simp
    then show ?thesis using assms 1
      by (simp add: fire_def Let_def mult.commute)
  next
    case 2
    have c: "cos (atan2 (- 0.02) (cos angle)) = cos angle"
      using atan2_unit(1) [of angle] 2 by simp
    have s: "sin (atan2 (- 0.02) (cos angle)) = sin angle"
      using atan2_unit(2) [of angle] 2 by simp
    show ?thesis using assms 2 c s
      by (simp add: fire_def Let_def mult.commute)
  next
    case 3
    then show ?thesis using assms
      by (simp add: fire_def Let_def)
  qed
qed

theorem fire_clamps_aim_witness:
  "\<exists>p. s_projectile (shooterRef (fire game0 0 0 0)) = Some p
       \<and> p_vy p < 0
       \<and> p_vx p = 8 * cos (atan2 (- 0.02) 1)
       \<and> p_vy p = 8 * sin (atan2 (- 0.02) 1)"
  using fire_clamps_aim [of game0 0 0 0]
  by (simp add: game0_def shooter0_def)

section \<open>The colour-match flood fill\<close>

lemma linked_mono:
  assumes "linked S a b" and "S \<subseteq> T"
  shows "linked T a b"
  using assms
proof (induction rule: linked.induct)
  case linked_refl
  then show ?case by (auto intro: linked.linked_refl)
next
  case (linked_step b b')
  then show ?case by (auto intro: linked.linked_step)
qed

lemma linked_target: "linked S a b \<Longrightarrow> b \<in> S"
  by (induction rule: linked.induct) auto

lemma floodFill_loop_sound:
  "set visited \<subseteq> sameColor g color \<Longrightarrow>
   set (floodFill_loop g color visited stack) \<subseteq> sameColor g color"
proof (induction g color visited stack rule: floodFill_loop.induct)
  case (1 g color visited)
  then show ?case by simp
next
  case (2 g color visited cell stack)
  then show ?case by (auto simp: sameColor_def)
qed

lemma floodFill_loop_distinct:
  "distinct visited \<Longrightarrow> distinct (floodFill_loop g color visited stack)"
  by (induction g color visited stack rule: floodFill_loop.induct) auto

lemma floodFill_loop_grows:
  "set visited \<subseteq> set (floodFill_loop g color visited stack)"
  by (induction g color visited stack rule: floodFill_loop.induct) auto

lemma floodFill_loop_takes_stack:
  "set stack \<inter> sameColor g color \<subseteq> set (floodFill_loop g color visited stack)"
proof (induction g color visited stack rule: floodFill_loop.induct)
  case (1 g color visited)
  then show ?case by simp
next
  case (2 g color visited cell stack)
  show ?case
  proof (cases "cell \<in> set visited")
    case True
    then show ?thesis
      using 2(1) floodFill_loop_grows [of visited g color stack] by auto
  next
    case new: False
    show ?thesis
    proof (cases "inRange cell \<and> cellAt g cell = Some color")
      case True
      have "cell \<in> set (floodFill_loop g color (visited @ [cell]) (rev (neighbours cell) @ stack))"
        using floodFill_loop_grows [of "visited @ [cell]" g color "rev (neighbours cell) @ stack"]
        by auto
      then show ?thesis
        using new True 2(4) by auto
    next
      case False
      then show ?thesis
        using new 2(2,3) by (auto simp: sameColor_def)
    qed
  qed
qed

lemma floodFill_loop_linked:
  assumes "\<forall>v \<in> set visited. linked (set visited) seed v"
    and "\<forall>s \<in> set stack. s = seed \<or> (\<exists>v \<in> set visited. s \<in> set (neighbours v))"
  shows "\<forall>v \<in> set (floodFill_loop g color visited stack).
           linked (set (floodFill_loop g color visited stack)) seed v"
  using assms
proof (induction g color visited stack rule: floodFill_loop.induct)
  case (1 g color visited)
  then show ?case by simp
next
  case (2 g color visited cell stack)
  show ?case
  proof (cases "cell \<in> set visited \<or> \<not> inRange cell \<or> cellAt g cell \<noteq> Some color")
    case True
    then show ?thesis using 2 by auto
  next
    case False
    then have new: "cell \<notin> set visited" and rng: "inRange cell"
      and col: "cellAt g cell = Some color" by auto
    let ?V = "set (visited @ [cell])"
    have old: "\<forall>v \<in> set visited. linked ?V seed v"
      using 2(5) by (auto intro: linked_mono)
    have "linked ?V seed cell"
    proof -
      from 2(6) have "cell = seed \<or> (\<exists>v \<in> set visited. cell \<in> set (neighbours v))"
        by simp
      then show ?thesis
      proof
        assume "cell = seed"
        then show ?thesis by (auto intro: linked_refl)
      next
        assume "\<exists>v \<in> set visited. cell \<in> set (neighbours v)"
        then obtain v where v: "v \<in> set visited" "cell \<in> set (neighbours v)" by blast
        then have "linked ?V seed v" using old by blast
        then show ?thesis using v(2) by (rule linked_step) simp
      qed
    qed
    then have inv1: "\<forall>v \<in> ?V. linked ?V seed v"
      using old by auto
    have inv2: "\<forall>s \<in> set (rev (neighbours cell) @ stack).
                  s = seed \<or> (\<exists>v \<in> ?V. s \<in> set (neighbours v))"
      using 2(6) by auto
    show ?thesis
      using 2(4) [OF new _ _ inv1 inv2] new rng col by simp
  qed
qed

lemma floodFill_loop_closed:
  assumes "\<forall>v \<in> set visited. \<forall>n \<in> set (neighbours v).
             n \<in> sameColor g color \<longrightarrow> n \<in> set visited \<or> n \<in> set stack"
  shows "\<forall>v \<in> set (floodFill_loop g color visited stack). \<forall>n \<in> set (neighbours v).
           n \<in> sameColor g color \<longrightarrow> n \<in> set (floodFill_loop g color visited stack)"
  using assms
proof (induction g color visited stack rule: floodFill_loop.induct)
  case (1 g color visited)
  then show ?case by simp
next
  case (2 g color visited cell stack)
  show ?case
  proof (cases "cell \<in> set visited")
    case True
    have "\<forall>v \<in> set visited. \<forall>n \<in> set (neighbours v).
             n \<in> sameColor g color \<longrightarrow> n \<in> set visited \<or> n \<in> set stack"
      using 2(5) True by auto
    then show ?thesis using 2(1) [OF True] True by simp
  next
    case new: False
    show ?thesis
    proof (cases "inRange cell \<and> cellAt g cell = Some color")
      case False
      then have out: "cell \<notin> sameColor g color" by (auto simp: sameColor_def)
      have inv: "\<forall>v \<in> set visited. \<forall>n \<in> set (neighbours v).
             n \<in> sameColor g color \<longrightarrow> n \<in> set visited \<or> n \<in> set stack"
        using 2(5) out by auto
      show ?thesis
      proof (cases "inRange cell")
        case True
        then show ?thesis using 2(3) [OF new _ _ inv] new False by simp
      next
        case False
        then show ?thesis using 2(2) [OF new _ inv] new by simp
      qed
    next
      case True
      have inv: "\<forall>v \<in> set (visited @ [cell]). \<forall>n \<in> set (neighbours v).
             n \<in> sameColor g color \<longrightarrow>
             n \<in> set (visited @ [cell]) \<or> n \<in> set (rev (neighbours cell) @ stack)"
        using 2(5) by auto
      show ?thesis using 2(4) [OF new _ _ inv] new True by simp
    qed
  qed
qed

lemma floodFill_complete:
  assumes "linked (sameColor g color) (sr, sc) b"
  shows "b \<in> set (floodFill g sr sc color)"
  using assms
proof (induction rule: linked.induct)
  case linked_refl
  then show ?case
    using floodFill_loop_takes_stack [of "[(sr, sc)]" g color "[]"]
    by (auto simp: floodFill_def)
next
  case (linked_step b b')
  then show ?case
    using floodFill_loop_closed [of "[]" g color "[(sr, sc)]"]
    by (auto simp: floodFill_def)
qed

lemma floodFill_linked:
  "\<forall>v \<in> set (floodFill g sr sc color). linked (set (floodFill g sr sc color)) (sr, sc) v"
  unfolding floodFill_def
  by (rule floodFill_loop_linked) auto

lemma floodFill_sound: "set (floodFill g sr sc color) \<subseteq> sameColor g color"
  unfolding floodFill_def
  by (rule floodFill_loop_sound) simp

lemma floodFill_distinct: "distinct (floodFill g sr sc color)"
  unfolding floodFill_def
  by (rule floodFill_loop_distinct) simp

lemma floodFill_set:
  "set (floodFill g sr sc color) = {b. linked (sameColor g color) (sr, sc) b}"
proof
  show "set (floodFill g sr sc color) \<subseteq> {b. linked (sameColor g color) (sr, sc) b}"
    using floodFill_linked [of g sr sc color] floodFill_sound [of g sr sc color]
    by (auto intro: linked_mono)
  show "{b. linked (sameColor g color) (sr, sc) b} \<subseteq> set (floodFill g sr sc color)"
    using floodFill_complete by auto
qed

lemma mem_neighbours:
  "(r', c') \<in> set (neighbours (r, c)) \<longleftrightarrow>
     (r' = r \<and> (c' = c - 1 \<or> c' = c + 1))
   \<or> ((r' = r - 1 \<or> r' = r + 1) \<and> (c' = c \<or> c' = c + (if r mod 2 = 0 then - 1 else 1)))"
  by (auto simp: neighbours_def offsets_def)

lemma neighbours_sym:
  assumes "b \<in> set (neighbours a)"
  shows "a \<in> set (neighbours b)"
proof -
  obtain r c r' c' where ab: "a = (r, c)" "b = (r', c')"
    by (cases a, cases b) blast
  have "(r' = r \<and> (c' = c - 1 \<or> c' = c + 1))
      \<or> ((r' = r - 1 \<or> r' = r + 1) \<and> (c' = c \<or> c' = c + (if r mod 2 = 0 then - 1 else 1)))"
    using assms unfolding ab mem_neighbours .
  then have "(r = r' \<and> (c = c' - 1 \<or> c = c' + 1))
      \<or> ((r = r' - 1 \<or> r = r' + 1) \<and> (c = c' \<or> c = c' + (if r' mod 2 = 0 then - 1 else 1)))"
    by presburger
  then show ?thesis unfolding ab mem_neighbours .
qed

lemma linked_trans:
  assumes "linked S b c" and "linked S a b"
  shows "linked S a c"
  using assms
  by (induction rule: linked.induct) (auto intro: linked_step)

lemma linked_sym:
  assumes "linked S a b"
  shows "linked S b a"
  using assms
proof (induction rule: linked.induct)
  case linked_refl
  then show ?case by (rule linked.linked_refl)
next
  case (linked_step b b')
  have "b \<in> S" using linked_step.hyps(1) by (rule linked_target)
  have "linked S b' b'" using linked_step.hyps(3) by (rule linked.linked_refl)
  then have "linked S b' b"
    using neighbours_sym [OF linked_step.hyps(2)] \<open>b \<in> S\<close> by (rule linked.linked_step)
  with linked_step.IH show ?case by (rule linked_trans)
qed

lemma floodFill_rerun:
  assumes "cell \<in> set (floodFill g sr sc color)"
  shows "set (floodFill g (fst cell) (snd cell) color) = set (floodFill g sr sc color)"
proof -
  have c: "linked (sameColor g color) (sr, sc) cell"
    using assms by (simp add: floodFill_set)
  have "linked (sameColor g color) cell b \<longleftrightarrow> linked (sameColor g color) (sr, sc) b" for b
    using c linked_sym linked_trans by blast
  then show ?thesis
    using floodFill_set [of g "fst cell" "snd cell" color] floodFill_set [of g sr sc color]
    by simp
qed

text \<open>
  C1. On the grid of the component, \<open>floodFill\<close> returns a set (no cell twice) of cells
  that are in range and hold the requested colour; every returned cell is linked to the
  seed by a path of hex-adjacent cells inside the returned set; a seed that holds the
  colour is returned; and running the fill again on the same grid from any returned cell
  (the seed among them) returns the same set. The function reads the grid and writes
  nothing, so the grid is unchanged between the two runs.
\<close>

theorem floodFill_cluster:
  assumes "wf_grid g"
  shows "distinct (floodFill g sr sc color)
       \<and> (\<forall>cell \<in> set (floodFill g sr sc color). inRange cell \<and> cellAt g cell = Some color)
       \<and> (\<forall>cell \<in> set (floodFill g sr sc color).
             linked (set (floodFill g sr sc color)) (sr, sc) cell)
       \<and> (inRange (sr, sc) \<and> cellAt g (sr, sc) = Some color
             \<longrightarrow> (sr, sc) \<in> set (floodFill g sr sc color))
       \<and> (\<forall>cell \<in> set (floodFill g sr sc color).
             set (floodFill g (fst cell) (snd cell) color) = set (floodFill g sr sc color))"
proof -
  have "(sr, sc) \<in> set (floodFill g sr sc color)"
    if "inRange (sr, sc) \<and> cellAt g (sr, sc) = Some color"
  proof -
    have "linked (sameColor g color) (sr, sc) (sr, sc)"
      using that by (auto simp: sameColor_def intro: linked_refl)
    then show ?thesis by (rule floodFill_complete)
  qed
  moreover have "\<forall>cell \<in> set (floodFill g sr sc color). inRange cell \<and> cellAt g cell = Some color"
    using floodFill_sound [of g sr sc color] by (auto simp: sameColor_def)
  ultimately show ?thesis
    using floodFill_distinct [of g sr sc color] floodFill_linked [of g sr sc color]
      floodFill_rerun [of _ g sr sc color]
    by blast
qed

theorem floodFill_cluster_witness:
  "wf_grid grid1
   \<and> floodFill grid1 0 0 ''#ef4444'' = [(0, 0), (0, 1), (1, 0)]
   \<and> cellAt grid1 (1, 0) = Some ''#ef4444''
   \<and> linked {(0, 0), (0, 1), (1, 0)} (0, 0) (1, 0)
   \<and> set (floodFill grid1 1 0 ''#ef4444'') = {(0, 0), (0, 1), (1, 0)}"
proof -
  have w: "wf_grid grid1"
    by (simp add: wf_grid_def grid1_def rows_def cols_def)
  have e: "floodFill grid1 0 0 ''#ef4444'' = [(0, 0), (0, 1), (1, 0)]"
    by code_simp
  show ?thesis
    using floodFill_cluster [OF w, of 0 0 "''#ef4444''"] w e by simp
qed

section \<open>Reading and writing cells of a well-formed grid\<close>

lemma wf_grid_setCell:
  assumes "wf_grid g"
  shows "wf_grid (setCell g cell v)"
proof -
  have len: "length g = rows" "\<And>i. i < rows \<Longrightarrow> length (g ! i) = cols"
    using assms by (auto simp: wf_grid_def list_all_length)
  have "length (setCell g cell v ! n) = cols" if "n < rows" for n
  proof (cases "n = nat (fst cell)")
    case True
    then show ?thesis using len that by (simp add: setCell_def)
  next
    case False
    then show ?thesis using len that by (simp add: setCell_def)
  qed
  then show ?thesis using len(1) by (simp add: wf_grid_def list_all_length setCell_def)
qed

lemma cellAt_setCell:
  assumes "wf_grid g" and "inRange a" and "inRange b"
  shows "cellAt (setCell g a v) b = (if a = b then v else cellAt g b)"
proof -
  obtain r c r' c' where ab: "a = (r, c)" "b = (r', c')"
    by (cases a, cases b) blast
  have len: "length g = rows" "\<And>i. i < rows \<Longrightarrow> length (g ! i) = cols"
    using assms(1) by (auto simp: wf_grid_def list_all_length)
  have r: "nat r < rows" "nat c < cols" "nat r' < rows" "nat c' < cols"
    using assms(2,3) by (auto simp: ab inRange_def)
  have eq: "nat r = nat r' \<longleftrightarrow> r = r'" "nat c = nat c' \<longleftrightarrow> c = c'"
    using assms(2,3) by (auto simp: ab inRange_def)
  show ?thesis
    using len r eq by (auto simp: ab cellAt_def setCell_def nth_list_update)
qed

lemma set_allCells: "set allCells = {b. inRange b}"
proof -
  have "b \<in> set allCells \<longleftrightarrow> inRange b" for b
  proof (cases b)
    case (Pair r c)
    have "(r, c) \<in> set allCells \<longleftrightarrow> (\<exists>i < rows. \<exists>j < cols. r = int i \<and> c = int j)"
      by (force simp: allCells_def)
    also have "\<dots> \<longleftrightarrow> inRange (r, c)"
    proof
      assume "\<exists>i < rows. \<exists>j < cols. r = int i \<and> c = int j"
      then show "inRange (r, c)" by (auto simp: inRange_def)
    next
      assume "inRange (r, c)"
      then have "nat r < rows \<and> nat c < cols \<and> r = int (nat r) \<and> c = int (nat c)"
        by (auto simp: inRange_def)
      then show "\<exists>i < rows. \<exists>j < cols. r = int i \<and> c = int j" by blast
    qed
    finally show ?thesis using Pair by simp
  qed
  then show ?thesis by auto
qed

lemma distinct_allCells: "distinct allCells"
  unfolding allCells_def
  by (auto simp: distinct_map distinct_product inj_on_def)

lemma fold_rows_cols:
  "fold (\<lambda>r. fold (\<lambda>c. f (int r, int c)) cs) rs s
   = fold f (map (\<lambda>(r, c). (int r, int c)) (List.product rs cs)) s"
  by (induction rs arbitrary: s) (simp_all add: fold_map comp_def)

lemma finite_inRange: "finite {b. inRange b}"
  using set_allCells [symmetric] by (metis List.finite_set)

section \<open>Ceiling reachability and the removal of floating cells\<close>

lemma reachable_loop_grows:
  "set reachable \<union> set stack \<subseteq> set (reachable_loop g reachable stack)"
proof (induction g reachable stack rule: reachable_loop.induct)
  case (1 g reachable)
  then show ?case by simp
next
  case (2 g reachable cell stack)
  show ?case
  proof (cases "cell \<in> set reachable")
    case True
    then show ?thesis using 2(1) by auto
  next
    case False
    then show ?thesis using 2(2) by auto
  qed
qed

lemma reachable_loop_distinct:
  "distinct reachable \<Longrightarrow> distinct (reachable_loop g reachable stack)"
  by (induction g reachable stack rule: reachable_loop.induct) auto

lemma anchored_step:
  assumes "anchored g v" and "n \<in> set (neighbours v)" and "occupied g n"
  shows "anchored g n"
proof -
  obtain c where "linked (occupiedCells g) (0, c) v"
    using assms(1) unfolding anchored_def by blast
  then have "linked (occupiedCells g) (0, c) n"
    using assms(2) by (rule linked_step) (simp add: occupiedCells_def assms(3))
  then show ?thesis unfolding anchored_def by blast
qed

lemma reachable_loop_sound:
  "\<forall>v \<in> set reachable \<union> set stack. anchored g v \<Longrightarrow>
   \<forall>v \<in> set (reachable_loop g reachable stack). anchored g v"
proof (induction g reachable stack rule: reachable_loop.induct)
  case (1 g reachable)
  then show ?case by simp
next
  case (2 g reachable cell stack)
  show ?case
  proof (cases "cell \<in> set reachable")
    case True
    have eq: "reachable_loop g reachable (cell # stack) = reachable_loop g reachable stack"
      using True by simp
    have "\<forall>v \<in> set reachable \<union> set stack. anchored g v"
      using 2(3) by simp
    then show ?thesis unfolding eq by (rule 2(1) [OF True])
  next
    case False
    have eq: "reachable_loop g reachable (cell # stack)
            = reachable_loop g (reachable @ [cell])
                (rev (filter (occupied g) (neighbours cell)) @ stack)"
      using False by simp
    have pc: "anchored g cell" using 2(3) by simp
    have nb: "anchored g n" if "n \<in> set (neighbours cell)" "occupied g n" for n
      using pc that by (rule anchored_step)
    have "anchored g v"
      if "v \<in> set (reachable @ [cell])
                \<union> set (rev (filter (occupied g) (neighbours cell)) @ stack)" for v
    proof -
      from that consider "v \<in> set reachable \<union> set (cell # stack)"
        | "v \<in> set (neighbours cell)" "occupied g v"
        by auto
      then show ?thesis
      proof cases
        case 1
        then show ?thesis using 2(3) by blast
      next
        case 2
        then show ?thesis by (rule nb)
      qed
    qed
    then have "\<forall>v \<in> set (reachable @ [cell])
                \<union> set (rev (filter (occupied g) (neighbours cell)) @ stack). anchored g v"
      by blast
    then show ?thesis unfolding eq by (rule 2(2) [OF False])
  qed
qed

lemma reachable_loop_closed:
  assumes "\<forall>v \<in> set reachable. \<forall>n \<in> set (neighbours v).
             occupied g n \<longrightarrow> n \<in> set reachable \<or> n \<in> set stack"
  shows "\<forall>v \<in> set (reachable_loop g reachable stack). \<forall>n \<in> set (neighbours v).
           occupied g n \<longrightarrow> n \<in> set (reachable_loop g reachable stack)"
  using assms
proof (induction g reachable stack rule: reachable_loop.induct)
  case (1 g reachable)
  then show ?case by simp
next
  case (2 g reachable cell stack)
  show ?case
  proof (cases "cell \<in> set reachable")
    case True
    have "\<forall>v \<in> set reachable. \<forall>n \<in> set (neighbours v).
             occupied g n \<longrightarrow> n \<in> set reachable \<or> n \<in> set stack"
      using 2(3) True by auto
    then show ?thesis using 2(1) [OF True] True by simp
  next
    case False
    have "\<forall>v \<in> set (reachable @ [cell]). \<forall>n \<in> set (neighbours v).
             occupied g n \<longrightarrow> n \<in> set (reachable @ [cell])
               \<or> n \<in> set (rev (filter (occupied g) (neighbours cell)) @ stack)"
      using 2(3) by auto
    then show ?thesis using 2(2) [OF False] False by simp
  qed
qed

lemma set_ceilingCells:
  "set (ceilingCells g) = {b. occupied g b \<and> fst b = 0}"
proof -
  have "b \<in> set (ceilingCells g) \<longleftrightarrow> occupied g b \<and> fst b = 0" for b
  proof (cases b)
    case (Pair r c)
    have "(r, c) \<in> set (ceilingCells g) \<longleftrightarrow> r = 0 \<and> (\<exists>j < cols. c = int j \<and> g ! 0 ! j \<noteq> None)"
      by (auto simp: ceilingCells_def)
    also have "\<dots> \<longleftrightarrow> occupied g (r, c) \<and> r = 0"
    proof
      assume "r = 0 \<and> (\<exists>j < cols. c = int j \<and> g ! 0 ! j \<noteq> None)"
      then show "occupied g (r, c) \<and> r = 0"
        by (auto simp: occupied_def inRange_def cellAt_def rows_def)
    next
      assume a: "occupied g (r, c) \<and> r = 0"
      then have "nat c < cols \<and> c = int (nat c) \<and> g ! 0 ! nat c \<noteq> None"
        by (auto simp: occupied_def inRange_def cellAt_def)
      then show "r = 0 \<and> (\<exists>j < cols. c = int j \<and> g ! 0 ! j \<noteq> None)"
        using a by blast
    qed
    finally show ?thesis using Pair by simp
  qed
  then show ?thesis by auto
qed

lemma anchored_occupied:
  assumes "anchored g b"
  shows "occupied g b"
proof -
  obtain c where "linked (occupiedCells g) (0, c) b"
    using assms unfolding anchored_def by blast
  then have "b \<in> occupiedCells g" by (rule linked_target)
  then show ?thesis by (simp add: occupiedCells_def)
qed

lemma reachableSet_anchored: "set (reachableSet g) = {b. anchored g b}"
proof
  have start: "\<forall>v \<in> set [] \<union> set (ceilingCells g). anchored g v"
  proof
    fix v assume "v \<in> set [] \<union> set (ceilingCells g)"
    then have "occupied g v" "fst v = 0" by (auto simp: set_ceilingCells)
    then have "linked (occupiedCells g) (0, snd v) v"
      by (cases v) (auto simp: occupiedCells_def intro: linked_refl)
    then show "anchored g v" unfolding anchored_def by blast
  qed
  show "set (reachableSet g) \<subseteq> {b. anchored g b}"
    unfolding reachableSet_def
    using reachable_loop_sound [OF start] by auto
next
  have closed: "\<forall>v \<in> set (reachableSet g). \<forall>n \<in> set (neighbours v).
                  occupied g n \<longrightarrow> n \<in> set (reachableSet g)"
    unfolding reachableSet_def by (rule reachable_loop_closed) simp
  have top: "set (ceilingCells g) \<subseteq> set (reachableSet g)"
    unfolding reachableSet_def using reachable_loop_grows [of "[]" "ceilingCells g" g] by simp
  have "b \<in> set (reachableSet g)" if "linked (occupiedCells g) (0, c) b" for c b
    using that
  proof (induction rule: linked.induct)
    case linked_refl
    then show ?case using top by (auto simp: set_ceilingCells occupiedCells_def)
  next
    case (linked_step b b')
    then show ?case using closed by (auto simp: occupiedCells_def)
  qed
  then show "{b. anchored g b} \<subseteq> set (reachableSet g)"
    unfolding anchored_def by auto
qed

lemma clearFloating_cells:
  assumes "wf_grid g" and "distinct xs" and "\<forall>x \<in> set xs. inRange x"
  shows "wf_grid (fst (fold (clearFloating_step R) xs (g, s)))
       \<and> (\<forall>b. inRange b \<longrightarrow>
             cellAt (fst (fold (clearFloating_step R) xs (g, s))) b
             = (if b \<in> set xs \<and> cellAt g b \<noteq> None \<and> b \<notin> set R then None else cellAt g b))
       \<and> snd (fold (clearFloating_step R) xs (g, s))
         = s + 5 * int (card {b \<in> set xs. cellAt g b \<noteq> None \<and> b \<notin> set R})"
  using assms
proof (induction xs arbitrary: g s)
  case Nil
  then show ?case by simp
next
  case (Cons x xs)
  have x: "inRange x" "x \<notin> set xs" and xs: "distinct xs" "\<forall>b \<in> set xs. inRange b"
    using Cons.prems by auto
  show ?case
  proof (cases "cellAt g x \<noteq> None \<and> x \<notin> set R")
    case True
    let ?g1 = "setCell g x None"
    have step: "clearFloating_step R x (g, s) = (?g1, s + 5)"
      using True by (simp add: clearFloating_step_def)
    have wf1: "wf_grid ?g1" using Cons.prems(1) by (rule wf_grid_setCell)
    have at1: "cellAt ?g1 b = (if x = b then None else cellAt g b)" if "inRange b" for b
      using Cons.prems(1) x(1) that by (rule cellAt_setCell)
    have same: "{b \<in> set xs. cellAt ?g1 b \<noteq> None \<and> b \<notin> set R}
              = {b \<in> set xs. cellAt g b \<noteq> None \<and> b \<notin> set R}"
    proof (rule Collect_cong)
      fix b
      have "cellAt ?g1 b = cellAt g b" if "b \<in> set xs"
        using at1 [of b] that x(2) xs(2) by auto
      then show "(b \<in> set xs \<and> cellAt ?g1 b \<noteq> None \<and> b \<notin> set R)
               = (b \<in> set xs \<and> cellAt g b \<noteq> None \<and> b \<notin> set R)"
        by (cases "b \<in> set xs") simp_all
    qed
    have ins: "{b \<in> set (x # xs). cellAt g b \<noteq> None \<and> b \<notin> set R}
             = insert x {b \<in> set xs. cellAt g b \<noteq> None \<and> b \<notin> set R}"
      using True by auto
    have card: "card {b \<in> set (x # xs). cellAt g b \<noteq> None \<and> b \<notin> set R}
              = Suc (card {b \<in> set xs. cellAt g b \<noteq> None \<and> b \<notin> set R})"
      unfolding ins using x(2) by simp
    note IH = Cons.IH [OF wf1 xs, of "s + 5"]
    have "\<forall>b. inRange b \<longrightarrow>
             cellAt (fst (fold (clearFloating_step R) xs (?g1, s + 5))) b
             = (if b \<in> set (x # xs) \<and> cellAt g b \<noteq> None \<and> b \<notin> set R then None else cellAt g b)"
      using IH at1 True by auto
    moreover have "snd (fold (clearFloating_step R) xs (?g1, s + 5))
         = s + 5 * int (card {b \<in> set (x # xs). cellAt g b \<noteq> None \<and> b \<notin> set R})"
      using IH unfolding same card by simp
    ultimately show ?thesis using IH step by simp
  next
    case False
    have step: "clearFloating_step R x (g, s) = (g, s)"
      using False by (simp add: clearFloating_step_def)
    have eq: "{b \<in> set (x # xs). cellAt g b \<noteq> None \<and> b \<notin> set R}
            = {b \<in> set xs. cellAt g b \<noteq> None \<and> b \<notin> set R}"
      using False by auto
    note IH = Cons.IH [OF Cons.prems(1) xs, of s]
    have "\<forall>b. inRange b \<longrightarrow>
             cellAt (fst (fold (clearFloating_step R) xs (g, s))) b
             = (if b \<in> set (x # xs) \<and> cellAt g b \<noteq> None \<and> b \<notin> set R then None else cellAt g b)"
      using IH False by auto
    then show ?thesis using IH step unfolding eq by simp
  qed
qed

lemma clearFloating_all: "clearFloating R gs = fold (clearFloating_step R) allCells gs"
  unfolding clearFloating_def allCells_def by (rule fold_rows_cols)

lemma removeFloating_effect:
  assumes "wf_grid (gridRef st)"
  shows "wf_grid (gridRef (removeFloating st))"
    and "\<forall>b. inRange b \<longrightarrow> cellAt (gridRef (removeFloating st)) b
           = (if b \<in> floating (gridRef st) then None else cellAt (gridRef st) b)"
    and "score (removeFloating st) = score st + 5 * int (card (floating (gridRef st)))"
proof -
  let ?g = "gridRef st" and ?R = "reachableSet (gridRef st)"
  have all: "\<forall>x \<in> set allCells. inRange x" by (simp add: set_allCells)
  note cl = clearFloating_cells [OF assms distinct_allCells all, of ?R "score st"]
  have fl: "{b \<in> set allCells. cellAt ?g b \<noteq> None \<and> b \<notin> set ?R} = floating ?g"
    by (auto simp: set_allCells floating_def occupied_def reachableSet_anchored)
  have g': "gridRef (removeFloating st) = fst (fold (clearFloating_step ?R) allCells (?g, score st))"
    and s': "score (removeFloating st) = snd (fold (clearFloating_step ?R) allCells (?g, score st))"
    by (simp_all add: removeFloating_def Let_def clearFloating_all)
  show "wf_grid (gridRef (removeFloating st))"
    unfolding g' using cl by blast
  show "score (removeFloating st) = score st + 5 * int (card (floating ?g))"
    unfolding s' using cl fl by simp
  have "b \<in> floating ?g \<longleftrightarrow> b \<in> set allCells \<and> cellAt ?g b \<noteq> None \<and> b \<notin> set ?R" for b
    using fl by blast
  then show "\<forall>b. inRange b \<longrightarrow> cellAt (gridRef (removeFloating st)) b
           = (if b \<in> floating ?g then None else cellAt ?g b)"
    unfolding g' using cl by simp
qed

text \<open>
  C2. On the grid of the component, the set computed by the search of \<open>removeFloating\<close>
  is exactly the set of anchored cells: it contains every occupied cell of row 0 and every
  cell joined to one by a path of hex-adjacent occupied cells of any colour. The scan
  that follows clears exactly the occupied cells outside that set, leaves every other
  cell as it was, and adds 5 to the score for each cleared cell.
\<close>

theorem removeFloating_clears_unanchored:
  assumes "wf_grid (gridRef st)"
  shows "(\<forall>c. occupied (gridRef st) (0, c) \<longrightarrow> (0, c) \<in> set (reachableSet (gridRef st)))
       \<and> (\<forall>c b. linked (occupiedCells (gridRef st)) (0, c) b
                 \<longrightarrow> b \<in> set (reachableSet (gridRef st)))
       \<and> (\<forall>b \<in> set (reachableSet (gridRef st)). occupied (gridRef st) b)
       \<and> wf_grid (gridRef (removeFloating st))
       \<and> (\<forall>b. inRange b \<longrightarrow> cellAt (gridRef (removeFloating st)) b
             = (if occupied (gridRef st) b \<and> b \<notin> set (reachableSet (gridRef st))
                then None else cellAt (gridRef st) b))
       \<and> score (removeFloating st)
         = score st + 5 * int (card {b. occupied (gridRef st) b
                                      \<and> b \<notin> set (reachableSet (gridRef st))})"
proof -
  let ?g = "gridRef st"
  have fl: "floating ?g = {b. occupied ?g b \<and> b \<notin> set (reachableSet ?g)}"
    by (simp add: floating_def reachableSet_anchored)
  have "(0, c) \<in> set (reachableSet ?g)" if "occupied ?g (0, c)" for c
  proof -
    have "linked (occupiedCells ?g) (0, c) (0, c)"
      using that by (auto simp: occupiedCells_def intro: linked_refl)
    then show ?thesis by (auto simp: reachableSet_anchored anchored_def)
  qed
  moreover have "\<forall>c b. linked (occupiedCells ?g) (0, c) b \<longrightarrow> b \<in> set (reachableSet ?g)"
    by (auto simp: reachableSet_anchored anchored_def)
  moreover have "\<forall>b \<in> set (reachableSet ?g). occupied ?g b"
    by (auto simp: reachableSet_anchored intro: anchored_occupied)
  moreover have "\<forall>b. inRange b \<longrightarrow> cellAt (gridRef (removeFloating st)) b
             = (if occupied ?g b \<and> b \<notin> set (reachableSet ?g) then None else cellAt ?g b)"
    using removeFloating_effect(2) [OF assms] unfolding fl by simp
  ultimately show ?thesis
    using removeFloating_effect(1,3) [OF assms] unfolding fl by blast
qed

theorem removeFloating_clears_unanchored_witness:
  "wf_grid grid1
   \<and> occupied grid1 (0, 1)
   \<and> (0, 1) \<in> set (reachableSet grid1)
   \<and> cellAt (gridRef (removeFloating (game0\<lparr>gridRef := grid1\<rparr>))) (5, 3) = None
   \<and> cellAt (gridRef (removeFloating (game0\<lparr>gridRef := grid1\<rparr>))) (1, 1) = Some ''#3b82f6''
   \<and> score (removeFloating (game0\<lparr>gridRef := grid1\<rparr>)) = 5"
proof -
  have w: "wf_grid grid1"
    by (simp add: wf_grid_def grid1_def rows_def cols_def)
  have e: "reachableSet grid1 = [(0, 1), (1, 0), (1, 1), (0, 0)]"
    by code_simp
  have o: "occupied grid1 (0, 1)" "occupied grid1 (5, 3)" "occupied grid1 (1, 1)"
    "inRange (5, 3)" "inRange (1, 1)" "cellAt grid1 (1, 1) = Some ''#3b82f6''"
    by code_simp+
  have "snd (clearFloating (reachableSet grid1) (grid1, 0)) = 5"
    by code_simp
  then have s: "score (removeFloating (game0\<lparr>gridRef := grid1\<rparr>)) = 5"
    by (simp add: removeFloating_def game0_def)
  show ?thesis
    using removeFloating_clears_unanchored [of "game0\<lparr>gridRef := grid1\<rparr>"] w e o s
    by simp
qed

section \<open>Landing\<close>

lemma posToGrid_step_bound:
  assumes "row < rows" and "col < cols" and "fst best < rows \<and> fst (snd best) < cols"
  shows "fst (posToGrid_step x y row col best) < rows
       \<and> fst (snd (posToGrid_step x y row col best)) < cols"
  using assms by (simp add: posToGrid_step_def Let_def)

lemma posToGrid_bound: "fst (posToGrid x y) < rows \<and> snd (posToGrid x y) < cols"
proof -
  let ?P = "\<lambda>best :: nat \<times> nat \<times> real option. fst best < rows \<and> fst (snd best) < cols"
  have inner: "?P (fold (posToGrid_step x y row) [0..<cols] best)"
    if "row < rows" "?P best" for row best
    by (rule fold_invariant [where Q = "\<lambda>col. col < cols" and P = ?P])
       (use that posToGrid_step_bound in auto)
  have "?P (fold (\<lambda>row. fold (posToGrid_step x y row) [0..<cols]) [0..<rows] (0, 0, None))"
    by (rule fold_invariant [where Q = "\<lambda>row. row < rows" and P = ?P])
       (use inner in \<open>auto simp: rows_def cols_def\<close>)
  then show ?thesis by (simp add: posToGrid_def Let_def)
qed

lemma snapCell_inRange: "inRange (snapCell p)"
  using posToGrid_bound [of "p_x p" "p_y p"] by (simp add: snapCell_def inRange_def)

lemma clearCells_effect:
  assumes "wf_grid g" and "\<forall>m \<in> set ms. inRange m"
  shows "wf_grid (fold (\<lambda>m g. setCell g m None) ms g)
       \<and> (\<forall>b. inRange b \<longrightarrow> cellAt (fold (\<lambda>m g. setCell g m None) ms g) b
                               = (if b \<in> set ms then None else cellAt g b))"
  using assms
proof (induction ms arbitrary: g)
  case Nil
  then show ?case by simp
next
  case (Cons m ms)
  have wf1: "wf_grid (setCell g m None)" using Cons.prems(1) by (rule wf_grid_setCell)
  have at1: "cellAt (setCell g m None) b = (if m = b then None else cellAt g b)" if "inRange b" for b
    using Cons.prems(1) _ that by (rule cellAt_setCell) (use Cons.prems(2) in simp)
  have ms: "\<forall>m \<in> set ms. inRange m" using Cons.prems(2) by simp
  show ?case using Cons.IH [OF wf1 ms] at1 by auto
qed

lemma removeFloating_shooter: "shooterRef (removeFloating st) = shooterRef st"
  by (simp add: removeFloating_def Let_def)

text \<open>
  C5. With a projectile in flight over the grid of the component, landing handling always ends with no projectile and
  \<open>moving\<close> false; when the snap cell is already occupied, the grid and the score are
  left exactly as they were.
\<close>

theorem landing_clears_projectile:
  assumes "s_projectile (shooterRef st) = Some p" and "wf_grid (gridRef st)"
  shows "s_projectile (shooterRef (stopProjectileAndSnap st)) = None
       \<and> \<not> s_moving (shooterRef (stopProjectileAndSnap st))
       \<and> (cellAt (gridRef st) (snapCell p) \<noteq> None
            \<longrightarrow> gridRef (stopProjectileAndSnap st) = gridRef st
              \<and> score (stopProjectileAndSnap st) = score st)"
  using assms(1)
  by (simp add: stopProjectileAndSnap_def Let_def clearProjectile_def snapCell_def
      removeFloating_shooter)

theorem landing_clears_projectile_witness:
  "s_projectile (shooterRef (inFlight 9 9)) = Some (shot 9 9)
   \<and> wf_grid (gridRef (inFlight 9 9))
   \<and> snapCell (shot 9 9) = (0, 0)
   \<and> cellAt (gridRef (inFlight 9 9)) (0, 0) = Some ''#ef4444''
   \<and> s_projectile (shooterRef (stopProjectileAndSnap (inFlight 9 9))) = None
   \<and> \<not> s_moving (shooterRef (stopProjectileAndSnap (inFlight 9 9)))
   \<and> gridRef (stopProjectileAndSnap (inFlight 9 9)) = grid1"
proof -
  have "posToGrid 9 9 = (0, 0)" by code_simp
  then have c: "snapCell (shot 9 9) = (0, 0)" by (simp add: snapCell_def shot_def)
  have o: "cellAt grid1 (0, 0) = Some ''#ef4444''" by code_simp
  have p: "s_projectile (shooterRef (inFlight 9 9)) = Some (shot 9 9)"
    "gridRef (inFlight 9 9) = grid1"
    by (simp_all add: inFlight_def)
  have w: "wf_grid grid1"
    by (simp add: wf_grid_def grid1_def rows_def cols_def)
  show ?thesis
    using landing_clears_projectile [OF p(1)] c o p w by simp
qed

text \<open>
  C6. A projectile that snaps to an empty cell is placed there. If the cluster found by
  the flood fill from that cell has fewer than 3 cells, the grid is the old grid with the
  placed cell and the score is unchanged (no floating removal runs, whatever floats). If
  it has 3 cells or more, its cells are cleared, the cells that float in the grid after
  that pop are cleared too, every other cell is kept, and the score grows by 10 per
  cluster cell plus 5 per floating cell.
\<close>

theorem landing_pop:
  assumes proj: "s_projectile (shooterRef st) = Some p"
    and wf: "wf_grid (gridRef st)"
    and empty: "cellAt (gridRef st) (snapCell p) = None"
    and g1: "g1 = setCell (gridRef st) (snapCell p) (Some (p_color p))"
    and matched: "matched = floodFill g1 (fst (snapCell p)) (snd (snapCell p)) (p_color p)"
    and g2: "g2 = fold (\<lambda>m g. setCell g m None) matched g1"
  shows "(\<forall>b. inRange b \<longrightarrow>
            cellAt g1 b = (if b = snapCell p then Some (p_color p) else cellAt (gridRef st) b))
       \<and> (length matched < 3 \<longrightarrow>
            gridRef (stopProjectileAndSnap st) = g1
          \<and> score (stopProjectileAndSnap st) = score st)
       \<and> (length matched \<ge> 3 \<longrightarrow>
            (\<forall>b. inRange b \<longrightarrow> cellAt g2 b = (if b \<in> set matched then None else cellAt g1 b))
          \<and> (\<forall>b. inRange b \<longrightarrow>
                cellAt (gridRef (stopProjectileAndSnap st)) b
                = (if b \<in> set matched \<or> b \<in> floating g2 then None else cellAt g1 b))
          \<and> score (stopProjectileAndSnap st)
            = score st + 10 * int (length matched) + 5 * int (card (floating g2)))"
proof -
  have rng: "inRange (snapCell p)" by (rule snapCell_inRange)
  have wf1: "wf_grid g1" unfolding g1 using wf by (rule wf_grid_setCell)
  have at1: "\<forall>b. inRange b \<longrightarrow>
            cellAt g1 b = (if b = snapCell p then Some (p_color p) else cellAt (gridRef st) b)"
    unfolding g1 using cellAt_setCell [OF wf rng] by auto
  have min: "\<forall>m \<in> set matched. inRange m"
    using floodFill_sound [of g1 "fst (snapCell p)" "snd (snapCell p)" "p_color p"]
    unfolding matched by (auto simp: sameColor_def)
  have wf2: "wf_grid g2"
    and at2: "\<forall>b. inRange b \<longrightarrow> cellAt g2 b = (if b \<in> set matched then None else cellAt g1 b)"
    unfolding g2 using clearCells_effect [OF wf1 min] by simp_all
  define st2 where "st2 = st\<lparr>gridRef := g2, score := score st + int (length matched) * 10\<rparr>"
  have small: "gridRef (stopProjectileAndSnap st) = g1 \<and> score (stopProjectileAndSnap st) = score st"
    if "length matched < 3"
    using that proj empty
    by (simp add: stopProjectileAndSnap_def Let_def clearProjectile_def snapCell_def
        g1 matched)
  have big: "gridRef (stopProjectileAndSnap st) = gridRef (removeFloating st2)
           \<and> score (stopProjectileAndSnap st) = score (removeFloating st2)"
    if "length matched \<ge> 3"
    using that proj empty
    by (simp add: stopProjectileAndSnap_def Let_def clearProjectile_def snapCell_def
        g1 matched g2 st2_def)
  have wf2': "wf_grid (gridRef st2)" using wf2 by (simp add: st2_def)
  have fin: "\<forall>b. inRange b \<longrightarrow>
                cellAt (gridRef (removeFloating st2)) b
                = (if b \<in> set matched \<or> b \<in> floating g2 then None else cellAt g1 b)"
    using removeFloating_effect(2) [OF wf2'] at2 by (simp add: st2_def)
  have sc: "score (removeFloating st2)
            = score st + 10 * int (length matched) + 5 * int (card (floating g2))"
    using removeFloating_effect(3) [OF wf2'] by (simp add: st2_def)
  show ?thesis using at1 small big at2 fin sc by simp
qed

theorem landing_pop_witness:
  "s_projectile (shooterRef (inFlight 9 39)) = Some (shot 9 39)
   \<and> wf_grid (gridRef (inFlight 9 39))
   \<and> snapCell (shot 9 39) = (2, 0)
   \<and> cellAt (gridRef (inFlight 9 39)) (2, 0) = None
   \<and> floodFill (setCell grid1 (2, 0) (Some ''#ef4444'')) 2 0 ''#ef4444''
       = [(2, 0), (1, 0), (0, 1), (0, 0)]
   \<and> cellAt (gridRef (stopProjectileAndSnap (inFlight 9 39))) (0, 0) = None
   \<and> gridRef (stopProjectileAndSnap (inFlight 9 39)) = grid0
   \<and> score (stopProjectileAndSnap (inFlight 9 39)) = 50
   \<and> snapCell (shot 63 69) = (4, 3)
   \<and> cellAt (gridRef (inFlight 63 69)) (4, 3) = None
   \<and> floodFill (setCell grid1 (4, 3) (Some ''#ef4444'')) 4 3 ''#ef4444'' = [(4, 3)]
   \<and> gridRef (stopProjectileAndSnap (inFlight 63 69)) = setCell grid1 (4, 3) (Some ''#ef4444'')
   \<and> score (stopProjectileAndSnap (inFlight 63 69)) = 0"
proof -
  have "posToGrid 63 69 = (4, 3)" by code_simp
  then have c': "snapCell (shot 63 69) = (4, 3)" by (simp add: snapCell_def shot_def)
  have e': "cellAt grid1 (4, 3) = None" by code_simp
  have m': "floodFill (setCell grid1 (4, 3) (Some ''#ef4444'')) 4 3 ''#ef4444'' = [(4, 3)]"
    by code_simp
  have p': "s_projectile (shooterRef (inFlight 63 69)) = Some (shot 63 69)"
    "gridRef (inFlight 63 69) = grid1" "score (inFlight 63 69) = 0"
    "p_color (shot 63 69) = ''#ef4444''"
    by (simp_all add: inFlight_def game0_def shot_def)
  have "posToGrid 9 39 = (2, 0)" by code_simp
  then have c: "snapCell (shot 9 39) = (2, 0)" by (simp add: snapCell_def shot_def)
  have w: "wf_grid grid1"
    by (simp add: wf_grid_def grid1_def rows_def cols_def)
  have e: "cellAt grid1 (2, 0) = None" "inRange (0, 0)" by code_simp+
  have m: "floodFill (setCell grid1 (2, 0) (Some ''#ef4444'')) 2 0 ''#ef4444''
       = [(2, 0), (1, 0), (0, 1), (0, 0)]"
    by code_simp
  have p: "s_projectile (shooterRef (inFlight 9 39)) = Some (shot 9 39)"
    "gridRef (inFlight 9 39) = grid1" "score (inFlight 9 39) = 0"
    "p_color (shot 9 39) = ''#ef4444''"
    by (simp_all add: inFlight_def game0_def shot_def)
  have "stopProjectileAndSnap (inFlight 9 39) = game0\<lparr>score := 50\<rparr>"
    by code_simp
  then have r: "gridRef (stopProjectileAndSnap (inFlight 9 39)) = grid0"
    "score (stopProjectileAndSnap (inFlight 9 39)) = 50"
    by (simp_all add: game0_def)
  have small: "gridRef (stopProjectileAndSnap (inFlight 63 69))
                 = setCell grid1 (4, 3) (Some ''#ef4444'')
               \<and> score (stopProjectileAndSnap (inFlight 63 69)) = 0"
    using landing_pop [OF p'(1), of "setCell grid1 (4, 3) (Some ''#ef4444'')" "[(4, 3)]"
        "fold (\<lambda>m g. setCell g m None) [(4, 3)] (setCell grid1 (4, 3) (Some ''#ef4444''))"]
      c' w e' m' p'
    by simp
  show ?thesis
    using landing_pop [OF p(1), of "setCell grid1 (2, 0) (Some ''#ef4444'')"
        "[(2, 0), (1, 0), (0, 1), (0, 0)]"
        "fold (\<lambda>m g. setCell g m None) [(2, 0), (1, 0), (0, 1), (0, 0)]
           (setCell grid1 (2, 0) (Some ''#ef4444''))"]
      c w e m p r c' e' m' p' small
    by simp
qed

section \<open>Nearest cell of a position\<close>

lemma fold_nested_product:
  "fold (\<lambda>r. fold (f r) cs) rs s = fold (\<lambda>(r, c). f r c) (List.product rs cs) s"
  by (induction rs arbitrary: s) (simp_all add: fold_map comp_def)

lemma posToGrid_scan:
  "posToGrid x y =
     (let best = fold (\<lambda>(row, col). posToGrid_step x y row col)
                   (List.product [0..<rows] [0..<cols]) (0, 0, None)
      in (fst best, fst (snd best)))"
  unfolding posToGrid_def fold_nested_product ..

lemma centre_distance_pos:
  assumes "(row, col) \<noteq> (r, c)"
  shows "0 < (fst (gridToPos row col) + cellSize / 2 - (fst (gridToPos r c) + cellSize / 2))\<^sup>2
           + (snd (gridToPos row col) + cellSize / 2 - (snd (gridToPos r c) + cellSize / 2))\<^sup>2"
proof (cases "row = r")
  case True
  then have "col \<noteq> c" using assms by simp
  then have "real col \<noteq> real c" by simp
  then have "fst (gridToPos row col) + cellSize / 2 - (fst (gridToPos r c) + cellSize / 2) \<noteq> 0"
    using True by (simp add: gridToPos_def cellSize_def)
  then show ?thesis by (simp add: sum_power2_gt_zero_iff)
next
  case False
  then have "real row \<noteq> real r" by simp
  then have "snd (gridToPos row col) + cellSize / 2 - (snd (gridToPos r c) + cellSize / 2) \<noteq> 0"
    by (simp add: gridToPos_def cellSize_def)
  then show ?thesis by (simp add: sum_power2_gt_zero_iff)
qed

lemma posToGrid_step_exact: "posToGrid_step x y row col (r, c, Some 0) = (r, c, Some 0)"
  by (simp add: posToGrid_step_def Let_def not_sum_power2_lt_zero)

lemma scan_keeps_exact:
  "fold (\<lambda>(row, col). posToGrid_step x y row col) xs (r, c, Some 0) = (r, c, Some 0)"
  by (induction xs) (auto simp: posToGrid_step_exact)

lemma scan_finds_centre:
  assumes "(r, c) \<in> set xs"
    and "x = fst (gridToPos r c) + cellSize / 2" and "y = snd (gridToPos r c) + cellSize / 2"
    and "case snd (snd best) of None \<Rightarrow> True | Some bd \<Rightarrow> 0 < bd"
  shows "fold (\<lambda>(row, col). posToGrid_step x y row col) xs best = (r, c, Some 0)"
  using assms(1,4)
proof (induction xs arbitrary: best)
  case Nil
  then show ?case by simp
next
  case (Cons p xs)
  obtain row col where p: "p = (row, col)" by (cases p)
  show ?case
  proof (cases "p = (r, c)")
    case True
    have "posToGrid_step x y r c best = (r, c, Some 0)"
      using Cons.prems(2) by (auto simp: posToGrid_step_def Let_def assms(2,3) split: option.splits)
    then show ?thesis using True by (simp add: scan_keeps_exact)
  next
    case False
    let ?d = "(fst (gridToPos row col) + cellSize / 2 - x)\<^sup>2
            + (snd (gridToPos row col) + cellSize / 2 - y)\<^sup>2"
    have pos: "0 < ?d"
      unfolding assms(2,3) using False p by (intro centre_distance_pos) simp
    have "case snd (snd (posToGrid_step x y row col best)) of None \<Rightarrow> True | Some bd \<Rightarrow> 0 < bd"
      using Cons.prems(2) pos by (auto simp: posToGrid_step_def Let_def split: option.splits)
    moreover have "(r, c) \<in> set xs" using Cons.prems(1) False by simp
    ultimately show ?thesis using Cons.IH p by simp
  qed
qed

text \<open>
  C4, as amended. \<open>gridToPos\<close> gives the top-left corner of a cell's box, not its centre,
  and the nearest centre to that corner is in general that of another cell. The round trip
  holds for the centre of the cell, the point every caller computes as
  \<open>gridToPos(r, c) + cellSize / 2\<close>: \<open>posToGrid\<close> maps it back to \<open>(r, c)\<close>.
\<close>

theorem posToGrid_centre:
  assumes "r < rows" and "c < cols"
  shows "posToGrid (fst (gridToPos r c) + cellSize / 2) (snd (gridToPos r c) + cellSize / 2)
         = (r, c)"
proof -
  have "(r, c) \<in> set (List.product [0..<rows] [0..<cols])"
    using assms by simp
  then have "fold (\<lambda>(row, col). posToGrid_step (fst (gridToPos r c) + cellSize / 2)
                     (snd (gridToPos r c) + cellSize / 2) row col)
               (List.product [0..<rows] [0..<cols]) (0, 0, None) = (r, c, Some 0)"
    by (rule scan_finds_centre) simp_all
  then show ?thesis by (simp add: posToGrid_scan)
qed

theorem posToGrid_centre_witness:
  "(1::nat) < rows \<and> (0::nat) < cols \<and> gridToPos 1 0 = (9, 15) \<and> posToGrid 18 24 = (1, 0)"
  using posToGrid_centre [of 1 0]
  by (simp add: rows_def cols_def gridToPos_def cellSize_def)

text \<open>
  The round trip as the claim states it, through \<open>gridToPos\<close> alone, fails: the corner
  \<open>(9, 15)\<close> of cell \<open>(1, 0)\<close> is nearest to the centre \<open>(9, 9)\<close> of cell \<open>(0, 0)\<close>.
\<close>

theorem posToGrid_gridToPos_counterexample:
  "(1::nat) < rows \<and> (0::nat) < cols
   \<and> gridToPos 1 0 = (9, 15)
   \<and> posToGrid (fst (gridToPos 1 0)) (snd (gridToPos 1 0)) = (0, 0)
   \<and> posToGrid (fst (gridToPos 1 0)) (snd (gridToPos 1 0)) \<noteq> (1, 0)"
proof -
  have "posToGrid (fst (gridToPos 1 0)) (snd (gridToPos 1 0)) = (0, 0)"
    by code_simp
  then show ?thesis
    by (simp add: rows_def cols_def gridToPos_def cellSize_def)
qed

section \<open>The row shift\<close>

lemma shift_up_loop:
  "n < length g \<Longrightarrow>
   length (fold (\<lambda>r g. g[r := g ! (r + 1)]) [0..<n] g) = length g
   \<and> (\<forall>i < length g. fold (\<lambda>r g. g[r := g ! (r + 1)]) [0..<n] g ! i
                        = (if i < n then g ! (i + 1) else g ! i))"
proof (induction n)
  case 0
  then show ?case by simp
next
  case (Suc n)
  then have IH: "length (fold (\<lambda>r g. g[r := g ! (r + 1)]) [0..<n] g) = length g"
    "\<forall>i < length g. fold (\<lambda>r g. g[r := g ! (r + 1)]) [0..<n] g ! i
                        = (if i < n then g ! (i + 1) else g ! i)"
    by simp_all
  show ?case using IH Suc.prems by (simp add: nth_list_update)
qed

lemma shift_down_loop:
  "n \<le> length g \<Longrightarrow>
   length (fold (\<lambda>r g. g[r := g ! (r - 1)]) (rev [1..<n]) g) = length g
   \<and> (\<forall>i < length g. fold (\<lambda>r g. g[r := g ! (r - 1)]) (rev [1..<n]) g ! i
                        = (if 1 \<le> i \<and> i < n then g ! (i - 1) else g ! i))"
proof (induction n arbitrary: g)
  case 0
  then show ?case by simp
next
  case (Suc n)
  show ?case
  proof (cases "n = 0")
    case True
    then show ?thesis by simp
  next
    case False
    let ?g = "g[n := g ! (n - 1)]"
    have n: "n \<le> length ?g" "n < length g" using Suc.prems by simp_all
    have unroll: "fold (\<lambda>r g. g[r := g ! (r - 1)]) (rev [1..<Suc n]) g
                = fold (\<lambda>r g. g[r := g ! (r - 1)]) (rev [1..<n]) ?g"
      using False by simp
    note IH = Suc.IH [OF n(1)]
    have "fold (\<lambda>r g. g[r := g ! (r - 1)]) (rev [1..<n]) ?g ! i
          = (if 1 \<le> i \<and> i < Suc n then g ! (i - 1) else g ! i)" if "i < length g" for i
    proof -
      consider "i < n" | "i = n" | "n < i" by linarith
      then show ?thesis
      proof cases
        case 1
        then show ?thesis using IH that by (simp add: nth_list_update)
      next
        case 2
        then show ?thesis using IH that False by (simp add: nth_list_update)
      next
        case 3
        then show ?thesis using IH that by (simp add: nth_list_update)
      qed
    qed
    then show ?thesis unfolding unroll using IH by simp
  qed
qed

lemma shiftGrid_up:
  assumes "wf_grid g"
  shows "shiftGrid (- 1) g = tl g @ [emptyRow]"
proof (rule nth_equalityI)
  have len: "length g = rows" using assms by (simp add: wf_grid_def)
  then have n: "rows - 1 < length g" by (simp add: rows_def)
  note loop = shift_up_loop [OF n]
  show "length (shiftGrid (- 1) g) = length (tl g @ [emptyRow])"
    using loop len by (simp add: shiftGrid_def rows_def)
  fix i assume "i < length (shiftGrid (- 1) g)"
  then have i: "i < rows" using loop len by (simp add: shiftGrid_def)
  show "shiftGrid (- 1) g ! i = (tl g @ [emptyRow]) ! i"
  proof (cases "i < rows - 1")
    case True
    then show ?thesis using loop len i
      by (simp add: shiftGrid_def nth_append nth_tl)
  next
    case False
    then have "i = rows - 1" "rows - 1 < rows" using i by simp_all
    then show ?thesis using loop len
      by (simp add: shiftGrid_def nth_append)
  qed
qed

lemma shiftGrid_down:
  assumes "wf_grid g" and "d \<noteq> - 1"
  shows "shiftGrid d g = emptyRow # butlast g"
proof (rule nth_equalityI)
  have len: "length g = rows" using assms by (simp add: wf_grid_def)
  then have n: "rows \<le> length g" by simp
  note loop = shift_down_loop [OF n]
  show "length (shiftGrid d g) = length (emptyRow # butlast g)"
    using loop len assms(2) by (simp add: shiftGrid_def rows_def)
  fix i assume "i < length (shiftGrid d g)"
  then have i: "i < rows" using loop len assms(2) by (simp add: shiftGrid_def)
  show "shiftGrid d g ! i = (emptyRow # butlast g) ! i"
  proof (cases i)
    case 0
    then show ?thesis using loop len assms(2) by (simp add: shiftGrid_def rows_def)
  next
    case (Suc j)
    then show ?thesis using loop len assms(2) i
      by (simp add: shiftGrid_def nth_butlast)
  qed
qed

lemma advance_idle: "nextDue now (timers st) = None \<Longrightarrow> advance now st = st"
  by (subst advance.simps) simp

lemma advance_run:
  "nextDue now (timers st) = Some x \<Longrightarrow>
   advance now st = advance now (runCallback (fst x) (snd x) (st\<lparr>timers := remove1 x (timers st)\<rparr>))"
  by (subst advance.simps) simp

lemma advance_one_shift:
  assumes "timers st = [(T, ShiftCommit d)]"
  shows "t < T \<Longrightarrow> advance t st = st"
    and "T \<le> t \<Longrightarrow> gridRef (advance t st) = shiftGrid d (gridRef st)"
proof -
  show "advance t st = st" if "t < T"
    using that assms by (intro advance_idle) (simp add: nextDue_def)
  show "gridRef (advance t st) = shiftGrid d (gridRef st)" if "T \<le> t"
  proof -
    define st1 where "st1 = runCallback T (ShiftCommit d) (st\<lparr>timers := []\<rparr>)"
    have t1: "timers st1 = [(T + 16, ShiftUnlock)]" and g1: "gridRef st1 = shiftGrid d (gridRef st)"
      by (simp_all add: st1_def runCallback_def)
    have "nextDue t (timers st) = Some (T, ShiftCommit d)"
      using that assms by (simp add: nextDue_def)
    then have a1: "advance t st = advance t st1"
      using assms by (simp add: advance_run st1_def)
    show ?thesis
    proof (cases "T + 16 \<le> t")
      case False
      then have "advance t st1 = st1"
        using t1 by (intro advance_idle) (simp add: nextDue_def)
      then show ?thesis using a1 g1 by simp
    next
      case True
      define st2 where "st2 = runCallback (T + 16) ShiftUnlock (st1\<lparr>timers := []\<rparr>)"
      have t2: "timers st2 = []" and g2: "gridRef st2 = gridRef st1"
        by (simp_all add: st2_def runCallback_def)
      have "nextDue t (timers st1) = Some (T + 16, ShiftUnlock)"
        using True t1 by (simp add: nextDue_def)
      then have "advance t st1 = advance t st2"
        using t1 by (simp add: advance_run st2_def)
      moreover have "advance t st2 = st2"
        using t2 by (intro advance_idle) (simp add: nextDue_def)
      ultimately show ?thesis using a1 g1 g2 by simp
    qed
  qed
qed

text \<open>
  C7. Let \<open>st1\<close> be the state after \<open>startGridShift\<close> is called at time \<open>now\<close> in a state
  with no shift active and no timer pending. A further call, with any arguments, returns
  \<open>st1\<close> unchanged (as does any call in a state whose shift is active), and the calls
  leave the grid as it was. When the timers run, the grid is the unshifted grid at every
  time before \<open>now + duration\<close> and is the grid shifted once at every time from then on.
  Direction \<open>-1\<close> (for which the frame loop draws the grid with a positive \<open>y\<close> offset,
  toward the shooter) moves the contents of every row one index toward row 0: row 0 is
  dropped and an empty row becomes the last row. Every other direction is the mirror
  image: the last row is dropped and an empty row becomes row 0.
\<close>

theorem startGridShift_once:
  assumes idle: "\<not> an_active (animRef st)" and none: "timers st = []"
    and wf: "wf_grid (gridRef st)"
    and st1: "st1 = startGridShift st now d dur"
  shows "startGridShift st1 now' d' dur' = st1
       \<and> (\<forall>s. an_active (animRef s) \<longrightarrow> startGridShift s now' d' dur' = s)
       \<and> gridRef st1 = gridRef st
       \<and> (\<forall>t. t < now + max 0 dur \<longrightarrow> gridRef (advance t st1) = gridRef st)
       \<and> (\<forall>t. now + max 0 dur \<le> t \<longrightarrow> gridRef (advance t st1) = shiftGrid d (gridRef st))
       \<and> shiftGrid (- 1) (gridRef st) = tl (gridRef st) @ [emptyRow]
       \<and> (d \<noteq> - 1 \<longrightarrow> shiftGrid d (gridRef st) = emptyRow # butlast (gridRef st))
       \<and> (\<forall>eased. 0 < eased \<longrightarrow> 0 < drawOffset (- 1) eased)"
proof -
  have t1: "timers st1 = [(now + max 0 dur, ShiftCommit d)]"
    and g1: "gridRef st1 = gridRef st" and a1: "an_active (animRef st1)"
    using idle none by (simp_all add: st1 startGridShift_def)
  have noop: "startGridShift s now' d' dur' = s" if "an_active (animRef s)" for s
    using that by (simp add: startGridShift_def)
  have before: "gridRef (advance t st1) = gridRef st" if "t < now + max 0 dur" for t
    using advance_one_shift(1) [OF t1 that] g1 by simp
  have after: "gridRef (advance t st1) = shiftGrid d (gridRef st)" if "now + max 0 dur \<le> t" for t
    using advance_one_shift(2) [OF t1 that] g1 by simp
  have off: "0 < drawOffset (- 1) eased" if "0 < eased" for eased
    using that by (simp add: drawOffset_def cellSize_def)
  show ?thesis
    using noop [OF a1] noop g1 before after shiftGrid_up [OF wf] shiftGrid_down [OF wf] off
    by blast
qed

theorem startGridShift_once_witness:
  "\<not> an_active (animRef (game0\<lparr>gridRef := grid1\<rparr>))
   \<and> wf_grid grid1
   \<and> startGridShift (startGridShift (game0\<lparr>gridRef := grid1\<rparr>) 0 1 300) 5 (- 1) 300
     = startGridShift (game0\<lparr>gridRef := grid1\<rparr>) 0 1 300
   \<and> gridRef (advance 299 (startGridShift (game0\<lparr>gridRef := grid1\<rparr>) 0 1 300)) = grid1
   \<and> gridRef (advance 300 (startGridShift (game0\<lparr>gridRef := grid1\<rparr>) 0 1 300))
     = emptyRow # butlast grid1
   \<and> gridRef (advance 1000 (startGridShift (game0\<lparr>gridRef := grid1\<rparr>) 0 1 300))
     = emptyRow # butlast grid1
   \<and> shiftGrid (- 1) grid1 = tl grid1 @ [emptyRow]
   \<and> 0 < drawOffset (- 1) 1"
proof -
  have w: "wf_grid grid1"
    by (simp add: wf_grid_def grid1_def rows_def cols_def)
  have i: "\<not> an_active (animRef (game0\<lparr>gridRef := grid1\<rparr>))"
    "timers (game0\<lparr>gridRef := grid1\<rparr>) = []"
    "gridRef (game0\<lparr>gridRef := grid1\<rparr>) = grid1"
    by (simp_all add: game0_def)
  show ?thesis
    using startGridShift_once [of "game0\<lparr>gridRef := grid1\<rparr>"
        "startGridShift (game0\<lparr>gridRef := grid1\<rparr>) 0 1 300" 0 1 300 5 "- 1" 300]
      w i
    by simp
qed

section \<open>The trajectory predictor\<close>

lemma hypot_zero: "hypot a 0 = \<bar>a\<bar>"
  by (simp add: hypot_def)

lemma rows_list: "[0..<rows] = [0, 1, 2, 3, 4, 5, 6, 7, 8, 9]"
  by code_simp

lemma cols_list: "[0..<cols] = [0, 1, 2, 3, 4, 5, 6, 7]"
  by code_simp

lemma grid2_rows:
  "grid2 =
     [[Some ''#ef4444'', Some ''#ef4444'', Some ''#ef4444'', Some ''#ef4444'',
       Some ''#ef4444'', Some ''#ef4444'', Some ''#ef4444'', Some ''#ef4444''],
      [Some ''#ef4444'', Some ''#ef4444'', Some ''#ef4444'', Some ''#ef4444'',
       Some ''#ef4444'', Some ''#ef4444'', Some ''#ef4444'', Some ''#ef4444''],
      [Some ''#ef4444'', Some ''#ef4444'', Some ''#ef4444'', Some ''#ef4444'',
       Some ''#ef4444'', Some ''#ef4444'', Some ''#ef4444'', Some ''#ef4444''],
      [Some ''#ef4444'', Some ''#ef4444'', Some ''#ef4444'', Some ''#ef4444'',
       Some ''#ef4444'', Some ''#ef4444'', Some ''#ef4444'', Some ''#ef4444''],
      [None, None, None, None, None, None, None, None],
      [None, None, None, None, None, None, None, None],
      [None, None, None, None, None, None, None, None],
      [None, None, None, None, None, None, None, None],
      [None, None, None, None, None, None, None, None],
      [None, None, None, None, None, None, None, None]]"
  by (simp add: grid2_def eval_nat_numeral)

lemma straight_up_scan:
  "findCollision grid2 8 77 230 77 8 = Some \<lparr>c_row = 0, c_col = 3, c_x = 77, c_y = 9\<rparr>"
  by (simp add: findCollision_def rows_list cols_list cellCollision_def grid2_rows
      gridToPos_def cellSize_def segmentIntersectsCircle_def hitParam_def Let_def hypot_zero)

lemma straight_up_other_cell:
  "cellCollision grid2 8 77 230 77 8 3 3 = Some \<lparr>c_row = 3, c_col = 3, c_x = 77, c_y = 54\<rparr>"
  by (simp add: cellCollision_def grid2_rows
      gridToPos_def cellSize_def segmentIntersectsCircle_def hitParam_def Let_def hypot_zero)

lemma straight_up_trajectory:
  "computeTrajectory (game0\<lparr>gridRef := grid2\<rparr>) 154 77 230 (- (pi / 2)) n
     = \<lparr>t_segments = [\<lparr>seg_x1 = 77, seg_y1 = 230, seg_x2 = 77, seg_y2 = 9\<rparr>],
        t_hit = True, t_point = Some (77, 9), t_cell = Some (0, 3)\<rparr>"
  by (simp add: computeTrajectory_def game0_def shooter0_def tmin_def wallTime_def ceilingTime_def
      straight_up_scan)

text \<open>
  C3, evaluated. The shooter at \<open>(77, 230)\<close> aims straight up at the initial grid, rows
  0 to 3 filled. The candidate segment runs from \<open>(77, 230)\<close> to the ceiling line at
  \<open>(77, 8)\<close>. It meets the circle of the bubble at \<open>(3, 3)\<close> (centre \<open>(72, 54)\<close>) at
  parameter \<open>176/222\<close>, long before that of the bubble at \<open>(0, 3)\<close> (centre \<open>(63, 9)\<close>),
  at \<open>221/222\<close>. The scan goes through the rows from 0 and stops at the first cell found
  hit, so the predictor reports \<open>(0, 3)\<close> with the point \<open>(77, 9)\<close>, in the top row behind
  three rows of bubbles.
\<close>

theorem computeTrajectory_reports_first_scanned:
  "wf_grid grid2
   \<and> computeTrajectory (game0\<lparr>gridRef := grid2\<rparr>) 154 77 230 (- (pi / 2)) 5
     = \<lparr>t_segments = [\<lparr>seg_x1 = 77, seg_y1 = 230, seg_x2 = 77, seg_y2 = 9\<rparr>],
        t_hit = True, t_point = Some (77, 9), t_cell = Some (0, 3)\<rparr>
   \<and> cellCollision grid2 8 77 230 77 8 3 3
     = Some \<lparr>c_row = 3, c_col = 3, c_x = 77, c_y = 54\<rparr>
   \<and> hitParam 77 230 77 8 72 54 = 176 / 222
   \<and> hitParam 77 230 77 8 63 9 = 221 / 222"
proof -
  have "hitParam 77 230 77 8 72 54 = 176 / 222" "hitParam 77 230 77 8 63 9 = 221 / 222"
    by (simp_all add: hitParam_def Let_def)
  moreover have "wf_grid grid2"
    by (simp add: wf_grid_def grid2_rows rows_def cols_def)
  ultimately show ?thesis
    using straight_up_trajectory [of 5] straight_up_other_cell by simp
qed

lemma firstHit_Some: "firstHit f xs = Some h \<Longrightarrow> \<exists>x \<in> set xs. f x = Some h"
  by (induction xs) (auto split: option.splits)

lemma hitParam_range: "0 \<le> hitParam x y endX endY cx cy \<and> hitParam x y endX endY cx cy \<le> 1"
  by (simp add: hitParam_def Let_def)

lemma findCollision_point:
  assumes "findCollision g projR x y endX endY = Some col"
  shows "\<exists>t. 0 \<le> t \<and> t \<le> 1 \<and> c_x col = x + (endX - x) * t \<and> c_y col = y + (endY - y) * t"
proof -
  obtain r where "firstHit (cellCollision g projR x y endX endY r) [0..<cols] = Some col"
    using firstHit_Some [OF assms [unfolded findCollision_def]] by blast
  then obtain c where c: "cellCollision g projR x y endX endY r c = Some col"
    using firstHit_Some by fastforce
  let ?t = "hitParam x y endX endY
              (fst (gridToPos r c) + cellSize / 2) (snd (gridToPos r c) + cellSize / 2)"
  have "c_x col = x + (endX - x) * ?t \<and> c_y col = y + (endY - y) * ?t"
    using c by (auto simp: cellCollision_def Let_def split: option.splits if_splits)
  then show ?thesis using hitParam_range by blast
qed

lemma line_between:
  fixes a v t T :: real
  assumes "0 \<le> t" and "t \<le> T"
  shows "min a (a + v * T) \<le> a + v * t \<and> a + v * t \<le> max a (a + v * T)"
proof (cases "0 \<le> v")
  case True
  then have "0 \<le> v * t" "v * t \<le> v * T"
    using assms by (simp_all add: mult_left_mono)
  then show ?thesis by simp
next
  case False
  then have "v * t \<le> 0" "v * T \<le> v * t"
    using assms by (simp_all add: mult_nonpos_nonneg mult_left_mono_neg)
  then show ?thesis by simp
qed

lemma wallTime_Some:
  assumes "wallTime width radius x vx = Some tx" and "radius \<le> x" and "x \<le> width - radius"
  shows "0 \<le> tx" and "vx \<noteq> 0" and "x + vx * tx = (if vx > 0 then width - radius else radius)"
proof -
  show "vx \<noteq> 0" using assms(1) by (auto simp: wallTime_def)
  show "x + vx * tx = (if vx > 0 then width - radius else radius)"
    using assms(1) by (auto simp: wallTime_def split: if_splits)
  show "0 \<le> tx"
    using assms by (auto simp: wallTime_def divide_nonpos_neg split: if_splits)
qed

lemma wallTime_None: "wallTime width radius x vx = None \<Longrightarrow> vx = 0"
  by (auto simp: wallTime_def split: if_splits)

lemma ceilingTime_Some:
  assumes "ceilingTime radius y vy = Some ty" and "radius \<le> y"
  shows "0 \<le> ty" and "vy < 0" and "y + vy * ty = radius"
proof -
  show "vy < 0" using assms(1) by (auto simp: ceilingTime_def split: if_splits)
  show "y + vy * ty = radius"
    using assms(1) by (auto simp: ceilingTime_def split: if_splits)
  show "0 \<le> ty"
    using assms by (auto simp: ceilingTime_def divide_nonpos_neg split: if_splits)
qed

lemma ceilingTime_None: "ceilingTime radius y vy = None \<Longrightarrow> 0 \<le> vy"
  by (auto simp: ceilingTime_def split: if_splits)

lemma event_bounds:
  assumes x: "radius \<le> x" "x \<le> width - radius" and y: "radius \<le> y"
    and ev: "tmin (wallTime width radius x vx) (ceilingTime radius y vy) = Some tEvent"
  shows "0 \<le> tEvent"
    and "radius \<le> x + vx * tEvent" and "x + vx * tEvent \<le> width - radius"
    and "radius \<le> y + vy * tEvent"
proof -
  have t0: "0 \<le> tEvent"
    using ev wallTime_Some(1) [OF _ x] ceilingTime_Some(1) [OF _ y]
    by (auto simp: tmin_def split: option.splits)
  show "0 \<le> tEvent" by (rule t0)
  show "radius \<le> y + vy * tEvent"
  proof (cases "ceilingTime radius y vy")
    case None
    then have "0 \<le> vy" by (rule ceilingTime_None)
    then have "0 \<le> vy * tEvent" using t0 by simp
    then show ?thesis using y by simp
  next
    case (Some ty)
    then have "tEvent \<le> ty" using ev by (auto simp: tmin_def split: option.splits)
    then have "min y (y + vy * ty) \<le> y + vy * tEvent"
      using line_between [OF t0] by blast
    then show ?thesis using ceilingTime_Some(3) [OF Some y] y by simp
  qed
  have "radius \<le> x + vx * tEvent \<and> x + vx * tEvent \<le> width - radius"
  proof (cases "wallTime width radius x vx")
    case None
    then have "vx = 0" by (rule wallTime_None)
    then show ?thesis using x by simp
  next
    case (Some tx)
    then have "tEvent \<le> tx" using ev by (auto simp: tmin_def split: option.splits)
    then have "min x (x + vx * tx) \<le> x + vx * tEvent \<and> x + vx * tEvent \<le> max x (x + vx * tx)"
      using line_between [OF t0] by blast
    then show ?thesis using wallTime_Some(3) [OF Some x] x by (auto split: if_splits)
  qed
  then show "radius \<le> x + vx * tEvent" and "x + vx * tEvent \<le> width - radius"
    by simp_all
qed

lemma trace_path:
  assumes "radius \<le> x" and "x \<le> width - radius" and "radius \<le> y"
  shows "\<exists>new. t_segments (trace g width radius n x y vx vy segs) = segs @ new
           \<and> (\<forall>s \<in> set new. withinWalls width radius s)
           \<and> bounces width radius vx (x, y) new"
  using assms
proof (induction n arbitrary: x y vx segs)
  case 0
  then show ?case by simp
next
  case (Suc n)
  note x = Suc.prems(1,2) and y = Suc.prems(3)
  let ?tx = "wallTime width radius x vx" and ?ty = "ceilingTime radius y vy"
  show ?case
  proof (cases "tmin ?tx ?ty")
    case None
    then show ?thesis by simp
  next
    case (Some tEvent)
    let ?endX = "x + vx * tEvent" and ?endY = "y + vy * tEvent"
    note b = event_bounds [OF x y Some]
    have sq: "0 \<le> (?endX - x) * vx"
    proof -
      have "0 \<le> vx * vx" by simp
      then have nn: "0 \<le> (vx * vx) * tEvent" using b(1) by (rule mult_nonneg_nonneg)
      have eq: "(?endX - x) * vx = (vx * vx) * tEvent" by (simp add: algebra_simps)
      show ?thesis unfolding eq by (rule nn)
    qed
    show ?thesis
    proof (cases "findCollision g radius x y ?endX ?endY")
      case (Some col)
      let ?s = "\<lparr>seg_x1 = x, seg_y1 = y, seg_x2 = c_x col, seg_y2 = c_y col\<rparr>"
      obtain t where t: "0 \<le> t" "t \<le> 1" "c_x col = x + (?endX - x) * t"
        using findCollision_point [OF Some] by blast
      have "min x (x + (?endX - x) * 1) \<le> c_x col \<and> c_x col \<le> max x (x + (?endX - x) * 1)"
        unfolding t(3) using t(1,2) by (rule line_between)
      then have w: "withinWalls width radius ?s"
        using x b(2,3) by (auto simp: withinWalls_def)
      have eq: "(c_x col - x) * vx = ((?endX - x) * vx) * t" by (simp add: t(3) algebra_simps)
      have nn: "0 \<le> ((?endX - x) * vx) * t" using sq t(1) by (rule mult_nonneg_nonneg)
      have "0 \<le> (c_x col - x) * vx" unfolding eq by (rule nn)
      then have "bounces width radius vx (x, y) [?s]" by simp
      moreover have "t_segments (trace g width radius (Suc n) x y vx vy segs) = segs @ [?s]"
        using \<open>tmin ?tx ?ty = Some tEvent\<close> Some by (simp add: Let_def)
      ultimately show ?thesis using w by auto
    next
      case None
      let ?s = "\<lparr>seg_x1 = x, seg_y1 = y, seg_x2 = ?endX, seg_y2 = ?endY\<rparr>"
      have w: "withinWalls width radius ?s"
        using x b(2,3) by (simp add: withinWalls_def)
      show ?thesis
      proof (cases "tle ?ty ?tx")
        case True
        have "bounces width radius vx (x, y) [?s]" using sq by simp
        moreover have "t_segments (trace g width radius (Suc n) x y vx vy segs) = segs @ [?s]"
          using \<open>tmin ?tx ?ty = Some tEvent\<close> None True by (simp add: Let_def)
        ultimately show ?thesis using w by auto
      next
        case False
        then obtain txv where txv: "?tx = Some txv" "tEvent = txv"
          using \<open>tmin ?tx ?ty = Some tEvent\<close>
          by (auto simp: tle_def tmin_def split: option.splits)
        have wall: "vx \<noteq> 0" "?endX = (if vx > 0 then width - radius else radius)"
          using wallTime_Some(2,3) [OF txv(1) x] txv(2) by simp_all
        obtain new where new:
          "t_segments (trace g width radius n ?endX ?endY (- vx) vy (segs @ [?s]))
             = (segs @ [?s]) @ new"
          "\<forall>s \<in> set new. withinWalls width radius s"
          "bounces width radius (- vx) (?endX, ?endY) new"
          using Suc.IH [OF b(2,3,4)] by blast
        have "bounces width radius vx (x, y) (?s # new)"
          using sq wall new(3) by simp
        moreover have "t_segments (trace g width radius (Suc n) x y vx vy segs) = segs @ (?s # new)"
          using \<open>tmin ?tx ?ty = Some tEvent\<close> None False new(1) by (simp add: Let_def)
        moreover have "\<forall>s \<in> set (?s # new). withinWalls width radius s"
          using w new(2) by simp
        ultimately show ?thesis by blast
      qed
    qed
  qed
qed

lemma findCollision_empty: "findCollision grid0 projR x y endX endY = None"
  by (simp add: findCollision_def rows_list cols_list cellCollision_def grid0_def)

lemma left_of_wall_trajectory:
  "t_segments (computeTrajectory game0 154 (- 5) 100 (- (pi / 2)) n)
   = [\<lparr>seg_x1 = - 5, seg_y1 = 100, seg_x2 = - 5, seg_y2 = 8\<rparr>]"
  by (simp add: computeTrajectory_def game0_def shooter0_def tmin_def tle_def
      wallTime_def ceilingTime_def findCollision_empty)

lemma above_ceiling_trajectory:
  "t_segments (computeTrajectory game0 154 77 (- 1000) (- (pi / 4)) n)
   = [\<lparr>seg_x1 = 77, seg_y1 = - 1000, seg_x2 = - 931, seg_y2 = 8\<rparr>]"
proof -
  have s2: "sqrt 2 * sqrt 2 = 2" by simp
  have tx: "wallTime 154 8 77 (sqrt 2 / 2) = Some (69 * 2 / sqrt 2)"
    by (simp add: wallTime_def)
  have ty: "ceilingTime 8 (- 1000) (- (sqrt 2 / 2)) = Some (- (1008 * 2 / sqrt 2))"
    by (simp add: ceilingTime_def)
  have lt: "- (1008 * 2 / sqrt 2) \<le> 69 * 2 / sqrt 2"
    by (simp add: field_simps)
  have ev: "tmin (wallTime 154 8 77 (sqrt 2 / 2)) (ceilingTime 8 (- 1000) (- (sqrt 2 / 2)))
            = Some (- (1008 * 2 / sqrt 2))"
    unfolding tx ty using lt by (simp add: tmin_def)
  have le: "tle (ceilingTime 8 (- 1000) (- (sqrt 2 / 2))) (wallTime 154 8 77 (sqrt 2 / 2))"
    unfolding tx ty using lt by (simp add: tle_def)
  have ex: "77 + sqrt 2 / 2 * (- (1008 * 2 / sqrt 2)) = - 931"
    and ey: "- 1000 + - (sqrt 2 / 2) * (- (1008 * 2 / sqrt 2)) = 8"
    by simp_all
  have "trace grid0 154 8 (Suc n) 77 (- 1000) (sqrt 2 / 2) (- (sqrt 2 / 2)) []
        = \<lparr>t_segments = [\<lparr>seg_x1 = 77, seg_y1 = - 1000, seg_x2 = - 931, seg_y2 = 8\<rparr>],
           t_hit = False, t_point = None, t_cell = None\<rparr>"
    unfolding trace.simps Let_def ev using le ex ey
    by (simp add: findCollision_empty)
  then show ?thesis
    by (simp add: computeTrajectory_def game0_def shooter0_def cos_45 sin_45)
qed

lemma trace_wall_step:
  assumes "wallTime width radius x vx = Some tx" and "ceilingTime radius y vy = Some ty"
    and "tx < ty" and "x + vx * tx = ex" and "y + vy * tx = ey"
    and "findCollision g radius x y ex ey = None"
  shows "trace g width radius (Suc n) x y vx vy segs
         = trace g width radius n ex ey (- vx) vy
             (segs @ [\<lparr>seg_x1 = x, seg_y1 = y, seg_x2 = ex, seg_y2 = ey\<rparr>])"
  using assms by (simp add: tmin_def tle_def Let_def)

lemma trace_ceiling_step:
  assumes "wallTime width radius x vx = Some tx" and "ceilingTime radius y vy = Some ty"
    and "ty \<le> tx" and "x + vx * ty = ex" and "y + vy * ty = ey"
    and "findCollision g radius x y ex ey = None"
  shows "trace g width radius (Suc n) x y vx vy segs
         = \<lparr>t_segments = segs @ [\<lparr>seg_x1 = x, seg_y1 = y, seg_x2 = ex, seg_y2 = ey\<rparr>],
            t_hit = False, t_point = None, t_cell = None\<rparr>"
  using assms by (simp add: tmin_def tle_def Let_def)

lemma diagonal_trajectory:
  "t_segments (computeTrajectory game0 154 77 230 (- (pi / 4)) (Suc (Suc n)))
   = [\<lparr>seg_x1 = 77, seg_y1 = 230, seg_x2 = 146, seg_y2 = 161\<rparr>,
      \<lparr>seg_x1 = 146, seg_y1 = 161, seg_x2 = 8, seg_y2 = 23\<rparr>,
      \<lparr>seg_x1 = 8, seg_y1 = 23, seg_x2 = 23, seg_y2 = 8\<rparr>]"
proof -
  let ?v = "sqrt 2 / 2"
  have 1: "trace grid0 154 8 (Suc (Suc (Suc n))) 77 230 ?v (- ?v) segs
         = trace grid0 154 8 (Suc (Suc n)) 146 161 (- ?v) (- ?v)
             (segs @ [\<lparr>seg_x1 = 77, seg_y1 = 230, seg_x2 = 146, seg_y2 = 161\<rparr>])" for segs
    by (rule trace_wall_step [where tx = "138 / sqrt 2" and ty = "444 / sqrt 2"])
       (simp_all add: wallTime_def ceilingTime_def findCollision_empty field_simps)
  have 2: "trace grid0 154 8 (Suc (Suc n)) 146 161 (- ?v) (- ?v) segs
         = trace grid0 154 8 (Suc n) 8 23 ?v (- ?v)
             (segs @ [\<lparr>seg_x1 = 146, seg_y1 = 161, seg_x2 = 8, seg_y2 = 23\<rparr>])" for segs
    using trace_wall_step [where tx = "276 / sqrt 2" and ty = "306 / sqrt 2" and x = 146
        and y = 161 and vx = "- ?v" and vy = "- ?v" and width = 154 and radius = 8
        and ex = 8 and ey = 23 and g = grid0 and n = "Suc n" and segs = segs]
    by (simp add: wallTime_def ceilingTime_def findCollision_empty field_simps del: trace.simps)
  have 3: "trace grid0 154 8 (Suc n) 8 23 ?v (- ?v) segs
         = \<lparr>t_segments = segs @ [\<lparr>seg_x1 = 8, seg_y1 = 23, seg_x2 = 23, seg_y2 = 8\<rparr>],
            t_hit = False, t_point = None, t_cell = None\<rparr>" for segs
    by (rule trace_ceiling_step [where tx = "276 / sqrt 2" and ty = "30 / sqrt 2"])
       (simp_all add: wallTime_def ceilingTime_def findCollision_empty field_simps)
  show ?thesis
    by (simp add: computeTrajectory_def game0_def shooter0_def cos_45 sin_45 1 2 3
        del: trace.simps)
qed

text \<open>
  C8, as amended. When the origin is inside the play area (the projectile circle between
  the side walls and not above the ceiling line), every segment the predictor returns
  keeps both ends between the walls, hence within the play width. The segments form one
  path from the origin; each segment that is followed by another ends on the wall its
  horizontal velocity points to, and the next segment is traced with that velocity
  negated once.
\<close>

theorem computeTrajectory_within_walls:
  assumes "wf_grid (gridRef st)"
    and "0 \<le> s_radius (shooterRef st)"
    and "s_radius (shooterRef st) \<le> startX"
    and "startX \<le> width - s_radius (shooterRef st)"
    and "s_radius (shooterRef st) \<le> startY"
  shows "(\<forall>s \<in> set (t_segments (computeTrajectory st width startX startY angle maxBounces)).
            0 \<le> seg_x1 s \<and> seg_x1 s \<le> width \<and> 0 \<le> seg_x2 s \<and> seg_x2 s \<le> width
          \<and> withinWalls width (s_radius (shooterRef st)) s)
       \<and> bounces width (s_radius (shooterRef st)) (cos angle) (startX, startY)
            (t_segments (computeTrajectory st width startX startY angle maxBounces))"
proof -
  let ?R = "s_radius (shooterRef st)"
  obtain new where new:
    "t_segments (computeTrajectory st width startX startY angle maxBounces) = [] @ new"
    "\<forall>s \<in> set new. withinWalls width ?R s"
    "bounces width ?R (cos angle) (startX, startY) new"
    unfolding computeTrajectory_def
    using trace_path [OF assms(3,4,5)] by blast
  have "0 \<le> seg_x1 s \<and> seg_x1 s \<le> width \<and> 0 \<le> seg_x2 s \<and> seg_x2 s \<le> width"
    if "withinWalls width ?R s" for s
    using that assms(2) by (auto simp: withinWalls_def)
  then show ?thesis using new by auto
qed

theorem computeTrajectory_within_walls_witness:
  "wf_grid (gridRef game0)
   \<and> 0 \<le> s_radius (shooterRef game0)
   \<and> s_radius (shooterRef game0) \<le> 77
   \<and> 77 \<le> 154 - s_radius (shooterRef game0)
   \<and> s_radius (shooterRef game0) \<le> 230
   \<and> t_segments (computeTrajectory game0 154 77 230 (- (pi / 4)) 5)
     = [\<lparr>seg_x1 = 77, seg_y1 = 230, seg_x2 = 146, seg_y2 = 161\<rparr>,
        \<lparr>seg_x1 = 146, seg_y1 = 161, seg_x2 = 8, seg_y2 = 23\<rparr>,
        \<lparr>seg_x1 = 8, seg_y1 = 23, seg_x2 = 23, seg_y2 = 8\<rparr>]
   \<and> withinWalls 154 8 \<lparr>seg_x1 = 146, seg_y1 = 161, seg_x2 = 8, seg_y2 = 23\<rparr>
   \<and> bounces 154 8 (cos (- (pi / 4))) (77, 230)
        (t_segments (computeTrajectory game0 154 77 230 (- (pi / 4)) 5))"
proof -
  have r: "s_radius (shooterRef game0) = 8" by (simp add: game0_def shooter0_def)
  have w: "wf_grid (gridRef game0)"
    by (simp add: game0_def grid0_def wf_grid_def rows_def cols_def list_all_length)
  have e: "t_segments (computeTrajectory game0 154 77 230 (- (pi / 4)) 5)
     = [\<lparr>seg_x1 = 77, seg_y1 = 230, seg_x2 = 146, seg_y2 = 161\<rparr>,
        \<lparr>seg_x1 = 146, seg_y1 = 161, seg_x2 = 8, seg_y2 = 23\<rparr>,
        \<lparr>seg_x1 = 8, seg_y1 = 23, seg_x2 = 23, seg_y2 = 8\<rparr>]"
    using diagonal_trajectory [of 3] by (simp add: eval_nat_numeral)
  show ?thesis
    using computeTrajectory_within_walls [of game0 77 154 230 "- (pi / 4)" 5] r e w
    by simp
qed

text \<open>
  The claim as stated, for every origin, fails. From an origin left of the left wall the
  only segment lies at \<open>x = -5\<close>. From an origin between the walls but far above the
  ceiling line the time to the ceiling is negative, and the segment ends at \<open>x = -931\<close>.
  The play width is \<open>[0, 154]\<close> in both.
\<close>

theorem computeTrajectory_origin_counterexample:
  "t_segments (computeTrajectory game0 154 (- 5) 100 (- (pi / 2)) 5)
     = [\<lparr>seg_x1 = - 5, seg_y1 = 100, seg_x2 = - 5, seg_y2 = 8\<rparr>]
   \<and> seg_x2 (hd (t_segments (computeTrajectory game0 154 (- 5) 100 (- (pi / 2)) 5))) < 0
   \<and> t_segments (computeTrajectory game0 154 77 (- 1000) (- (pi / 4)) 5)
     = [\<lparr>seg_x1 = 77, seg_y1 = - 1000, seg_x2 = - 931, seg_y2 = 8\<rparr>]
   \<and> seg_x2 (hd (t_segments (computeTrajectory game0 154 77 (- 1000) (- (pi / 4)) 5))) < 0"
  using left_of_wall_trajectory [of 5] above_ceiling_trajectory [of 5] by simp

end
